theory Spec2Isabelle
  imports Complex_Main "HOL-Library.AList"
begin

section \<open>Calendar dates and Day Store file names\<close>

text \<open>
  A calendar date is its proleptic Gregorian ordinal, as Python's \<^verbatim>\<open>date.toordinal()\<close>
  gives it: 1 is 0001-01-01. Adding \<^verbatim>\<open>timedelta(days=k)\<close> adds \<open>k\<close>, and dates compare
  as their ordinals do. Python's dates end at 9999-12-31; the overflow of date arithmetic
  beyond that day is outside the model.
\<close>

type_synonym date = int

text \<open>\<^verbatim>\<open>date.weekday()\<close>: Monday is 0 and Sunday is 6.\<close>

definition weekday :: "date \<Rightarrow> int" where
  "weekday d = (d + 6) mod 7"

definition is_leap :: "int \<Rightarrow> bool" where
  "is_leap year = (year mod 4 = 0 \<and> (year mod 100 \<noteq> 0 \<or> year mod 400 = 0))"

definition days_before_year :: "int \<Rightarrow> int" where
  "days_before_year year = (let y = year - 1 in y * 365 + y div 4 - y div 100 + y div 400)"

definition DAYS_IN_MONTH :: "int list" where
  "DAYS_IN_MONTH = [31, 28, 31, 30, 31, 30, 31, 31, 30, 31, 30, 31]"

definition days_in_month :: "int \<Rightarrow> int \<Rightarrow> int" where
  "days_in_month year month =
     (if month = 2 \<and> is_leap year then 29 else DAYS_IN_MONTH ! nat (month - 1))"

definition days_before_month :: "int \<Rightarrow> int \<Rightarrow> int" where
  "days_before_month year month =
     sum_list (take (nat (month - 1)) DAYS_IN_MONTH) + (if 2 < month \<and> is_leap year then 1 else 0)"

definition ymd2ord :: "int \<Rightarrow> int \<Rightarrow> int \<Rightarrow> date" where
  "ymd2ord year month day = days_before_year year + days_before_month year month + day"

text \<open>
  The inverse, as CPython's \<^verbatim>\<open>_ord2ymd\<close> computes it: the 400-, 100-, 4- and 1-year
  cycles are peeled off the ordinal, then the month is estimated and corrected.
\<close>

definition ord2ymd :: "date \<Rightarrow> int \<times> int \<times> int" where
  "ord2ymd ordinal =
     (let n = ordinal - 1;
          n400 = n div 146097; n = n mod 146097;
          n100 = n div 36524; n = n mod 36524;
          n4 = n div 1461; n = n mod 1461;
          n1 = n div 365; n = n mod 365;
          year = n400 * 400 + 1 + n100 * 100 + n4 * 4 + n1
      in if n1 = 4 \<or> n100 = 4 then (year - 1, 12, 31)
         else
           let leapyear = (n1 = 3 \<and> (n4 \<noteq> 24 \<or> n100 = 3));
               month = (n + 50) div 32;
               preceding = sum_list (take (nat (month - 1)) DAYS_IN_MONTH)
                             + (if 2 < month \<and> leapyear then 1 else 0)
           in if n < preceding
              then (year, month - 1,
                    n - (preceding - (DAYS_IN_MONTH ! nat (month - 2)
                                        + (if month - 1 = 2 \<and> leapyear then 1 else 0))) + 1)
              else (year, month, n - preceding + 1))"

text \<open>
  \<^verbatim>\<open>strftime('%Y-%m-%d')\<close>: the year on four digits, the month and the day on two.
\<close>

definition digit :: "int \<Rightarrow> char" where
  "digit k = ''0123456789'' ! nat k"

definition strftime :: "date \<Rightarrow> string" where
  "strftime d =
     (case ord2ymd d of (y, m, dd) \<Rightarrow>
        [digit (y div 1000), digit (y div 100 mod 10), digit (y div 10 mod 10), digit (y mod 10)]
        @ ''-'' @ [digit (m div 10), digit (m mod 10)]
        @ ''-'' @ [digit (dd div 10), digit (dd mod 10)])"

text \<open>
  \<^verbatim>\<open>datetime.strptime(s, '%Y-%m-%d')\<close>. CPython matches the regular expression
  \<^verbatim>\<open>(\d\d\d\d)-(1[0-2]|0[1-9]|[1-9])-(3[0-1]|[1-2]\d|0[1-9]|[1-9]| [1-9])\<close> against the
  whole string and then builds the date, which fails for year 0 and for a day the month
  does not have. Every failure is the \<^verbatim>\<open>ValueError\<close> the caller catches: \<open>None\<close> here.
\<close>

definition digit_val :: "char \<Rightarrow> int option" where
  "digit_val c = map_of (zip ''0123456789'' [0, 1, 2, 3, 4, 5, 6, 7, 8, 9]) c"

fun split_dash :: "string \<Rightarrow> string list" where
  "split_dash [] = [[]]"
| "split_dash (c # cs) =
     (if c = CHR ''-'' then [] # split_dash cs
      else (case split_dash cs of w # ws \<Rightarrow> (c # w) # ws | [] \<Rightarrow> [[c]]))"

definition parse_year :: "string \<Rightarrow> int option" where
  "parse_year s =
     (case map digit_val s of
        [Some a, Some b, Some c, Some d] \<Rightarrow> Some (a * 1000 + b * 100 + c * 10 + d)
      | _ \<Rightarrow> None)"

definition parse_month :: "string \<Rightarrow> int option" where
  "parse_month s =
     (case map digit_val s of
        [Some a] \<Rightarrow> (if 1 \<le> a then Some a else None)
      | [Some a, Some b] \<Rightarrow>
          (if a = 1 \<and> b \<le> 2 then Some (10 + b)
           else if a = 0 \<and> 1 \<le> b then Some b
           else None)
      | _ \<Rightarrow> None)"

definition parse_day :: "string \<Rightarrow> int option" where
  "parse_day s =
     (case s of
        [x] \<Rightarrow> (case digit_val x of Some a \<Rightarrow> (if 1 \<le> a then Some a else None) | None \<Rightarrow> None)
      | [x, y] \<Rightarrow>
          (case (digit_val x, digit_val y) of
             (Some a, Some b) \<Rightarrow>
               (if a = 3 \<and> b \<le> 1 then Some (30 + b)
                else if 1 \<le> a \<and> a \<le> 2 then Some (a * 10 + b)
                else if a = 0 \<and> 1 \<le> b then Some b
                else None)
           | (None, Some b) \<Rightarrow> (if x = CHR '' '' \<and> 1 \<le> b then Some b else None)
           | _ \<Rightarrow> None)
      | _ \<Rightarrow> None)"

definition strptime :: "string \<Rightarrow> date option" where
  "strptime s =
     (case split_dash s of
        [ys, ms, ds] \<Rightarrow>
          (case (parse_year ys, parse_month ms, parse_day ds) of
             (Some y, Some m, Some d) \<Rightarrow>
               (if 1 \<le> y \<and> d \<le> days_in_month y m then Some (ymd2ord y m d) else None)
           | _ \<Rightarrow> None)
      | _ \<Rightarrow> None)"

section \<open>Bars, Day Store files and the cache directory\<close>

text \<open>
  A row of the table \<^verbatim>\<open>tf_1m\<close>. \<open>Datetime\<close> is a naive timestamp in minutes since
  midnight of ordinal 0, so minute \<open>t\<close> lies on day \<open>t div 1440\<close>. Prices are the stored
  floats read as real numbers: the program only compares and selects them, so no
  rounding takes place. Rows with a missing (NaN) price are outside the model.
\<close>

record bar =
  Datetime :: int
  Open :: real
  High :: real
  Low :: real
  Close :: real
  Volume :: int

text \<open>
  A file of the cache directory: an SQLite database holding the rows of \<^verbatim>\<open>tf_1m\<close> in
  insertion order, or a file SQLite cannot read. The directory maps base names to files;
  \<^verbatim>\<open>os.path.join\<close> and \<^verbatim>\<open>os.path.basename\<close> cancel, so paths are base names.
\<close>

datatype db_file = Table "bar list" | Corrupt

type_synonym directory = "(string \<times> db_file) list"

datatype error = InvalidFrequency | DatabaseError

definition get_db_path_for_date :: "date \<Rightarrow> string" where
  "get_db_path_for_date target_date = strftime target_date @ ''.sqlite3''"

section \<open>The composer: \<^verbatim>\<open>buscar_dados\<close>\<close>

text \<open>\<^verbatim>\<open>pd.read_sql_query("SELECT * FROM tf_1m", conn)\<close> raises on an unreadable file.\<close>

definition read_sql_query :: "db_file \<Rightarrow> error + bar list" where
  "read_sql_query f = (case f of Table rows \<Rightarrow> Inr rows | Corrupt \<Rightarrow> Inl DatabaseError)"

text \<open>
  The loop over the days of the range, both ends included. A missing file is skipped by
  the \<^verbatim>\<open>os.path.exists\<close> test, a failed read by the \<^verbatim>\<open>except Exception\<close> clause, which
  only logs. The result is \<^verbatim>\<open>lista_dfs\<close>.
\<close>

function read_days :: "directory \<Rightarrow> date \<Rightarrow> date \<Rightarrow> bar list list" where
  "read_days dir current_date fim =
     (if current_date \<le> fim then
        (case map_of dir (get_db_path_for_date current_date) of
           None \<Rightarrow> read_days dir (current_date + 1) fim
         | Some f \<Rightarrow>
             (case read_sql_query f of
                Inr df_dia \<Rightarrow> df_dia # read_days dir (current_date + 1) fim
              | Inl e \<Rightarrow> read_days dir (current_date + 1) fim))
      else [])"
  by pat_completeness auto
termination
  by (relation "measure (\<lambda>(dir, current_date, fim). nat (fim + 1 - current_date))") auto

declare read_days.simps [simp del]

text \<open>
  \<^verbatim>\<open>index.duplicated(keep='first')\<close>: the mask is true at every position whose key has
  occurred at an earlier position. \<^verbatim>\<open>df[~mask]\<close> keeps the other rows.
\<close>

fun duplicated :: "'a list \<Rightarrow> 'a list \<Rightarrow> bool list" where
  "duplicated seen [] = []"
| "duplicated seen (k # ks) = (k \<in> set seen) # duplicated (k # seen) ks"

definition drop_duplicated :: "bar list \<Rightarrow> bar list" where
  "drop_duplicated df =
     map fst (filter (\<lambda>(b, dup). \<not> dup) (zip df (duplicated [] (map Datetime df))))"

text \<open>
  \<^verbatim>\<open>sort_index\<close> orders the rows by timestamp. The keys are distinct by then, so the
  order of equal keys, which pandas leaves open, does not arise.
\<close>

definition sort_index :: "bar list \<Rightarrow> bar list" where
  "sort_index df = sort_key Datetime df"

definition merge_days :: "bar list list \<Rightarrow> bar list" where
  "merge_days lista_dfs = sort_index (drop_duplicated (concat lista_dfs))"

text \<open>
  The resampling rule as pandas parses it: a fixed frequency of \<open>w\<close> minutes
  (\<^verbatim>\<open>'5min'\<close> is \<open>Tick 5\<close>, \<^verbatim>\<open>'D'\<close> is \<open>Tick 1440\<close>), or a string pandas rejects.
\<close>

datatype timeframe = Tick nat | Malformed

text \<open>
  One row of \<^verbatim>\<open>resample(rule).agg(regras_resample)\<close> before \<^verbatim>\<open>dropna\<close>: a bin with no
  rows has NaN (\<open>None\<close>) under first, max, min and last, and 0 under sum.
\<close>

record agg_row =
  bin_label :: int
  first_Open :: "real option"
  max_High :: "real option"
  min_Low :: "real option"
  last_Close :: "real option"
  sum_Volume :: int

definition agg_first :: "real list \<Rightarrow> real option" where
  "agg_first xs = (case xs of [] \<Rightarrow> None | x # r \<Rightarrow> Some x)"

definition agg_last :: "real list \<Rightarrow> real option" where
  "agg_last xs = (case xs of [] \<Rightarrow> None | x # r \<Rightarrow> Some (last xs))"

definition agg_max :: "real list \<Rightarrow> real option" where
  "agg_max xs = (case xs of [] \<Rightarrow> None | x # r \<Rightarrow> Some (fold max r x))"

definition agg_min :: "real list \<Rightarrow> real option" where
  "agg_min xs = (case xs of [] \<Rightarrow> None | x # r \<Rightarrow> Some (fold min r x))"

definition agg :: "int \<Rightarrow> bar list \<Rightarrow> agg_row" where
  "agg lbl rows =
     \<lparr>bin_label = lbl,
      first_Open = agg_first (map Open rows),
      max_High = agg_max (map High rows),
      min_Low = agg_min (map Low rows),
      last_Close = agg_last (map Close rows),
      sum_Volume = sum_list (map Volume rows)\<rparr>"

text \<open>
  \<^verbatim>\<open>resample\<close> on a sorted frame, with the defaults of pandas for a fixed frequency
  (\<^verbatim>\<open>origin='start_day'\<close>, bins closed and labelled on the left): the bin edges are
  \<open>w\<close> minutes apart, counted from midnight of the day of the first row; the first bin is
  the one holding the first row, the last bin the one holding the last row, and every bin
  between them is produced, empty or not.
\<close>

definition bin_rows :: "nat \<Rightarrow> int \<Rightarrow> bar list \<Rightarrow> bar list" where
  "bin_rows w lbl df = filter (\<lambda>b. lbl \<le> Datetime b \<and> Datetime b < lbl + int w) df"

definition first_edge :: "nat \<Rightarrow> bar list \<Rightarrow> int" where
  "first_edge w df =
     (let first = Datetime (hd df);
          origin = first div 1440 * 1440
      in first - (first - origin) mod int w)"

definition resample_agg :: "nat \<Rightarrow> bar list \<Rightarrow> agg_row list" where
  "resample_agg w df =
     (if df = [] then []
      else
        let edge = first_edge w df;
            bins = nat ((Datetime (last df) - edge) div int w) + 1
        in map (\<lambda>k. agg (edge + int k * int w) (bin_rows w (edge + int k * int w) df)) [0..<bins])"

text \<open>\<^verbatim>\<open>dropna\<close> removes every row with a NaN in some column.\<close>

definition dropna :: "agg_row list \<Rightarrow> bar list" where
  "dropna rows =
     concat (map (\<lambda>r.
       (case (first_Open r, max_High r, min_Low r, last_Close r) of
          (Some o', Some h, Some l, Some c) \<Rightarrow>
            [\<lparr>Datetime = bin_label r, Open = o', High = h, Low = l, Close = c,
              Volume = sum_Volume r\<rparr>]
        | _ \<Rightarrow> [])) rows)"

text \<open>
  \<^verbatim>\<open>buscar_dados(timeframe, data_inicio, data_fim)\<close>. The empty \<^verbatim>\<open>DataFrame\<close> is the
  empty list. A malformed rule, or one of width zero, makes \<^verbatim>\<open>resample\<close> raise; that
  line is reached only when some day was read.
\<close>

definition buscar_dados :: "directory \<Rightarrow> timeframe \<Rightarrow> date \<Rightarrow> date \<Rightarrow> error + bar list" where
  "buscar_dados dir timeframe start fim =
     (let lista_dfs = read_days dir start fim in
      if lista_dfs = [] then Inr []
      else
        let dados_1m = merge_days lista_dfs in
        (case timeframe of
           Malformed \<Rightarrow> Inl InvalidFrequency
         | Tick w \<Rightarrow>
             if w = 0 then Inl InvalidFrequency
             else Inr (dropna (resample_agg w dados_1m))))"

section \<open>The synchronizer: \<^verbatim>\<open>sincronizar_dados_historicos\<close>\<close>

text \<open>
  \<^verbatim>\<open>glob.glob(os.path.join(data_dir, '*.sqlite3'))\<close>: the names that end in
  \<^verbatim>\<open>.sqlite3\<close> and do not start with a dot, which the wildcard never matches.
\<close>

definition endswith :: "string \<Rightarrow> string \<Rightarrow> bool" where
  "endswith s suf = (length suf \<le> length s \<and> drop (length s - length suf) s = suf)"

definition glob_sqlite3 :: "directory \<Rightarrow> string list" where
  "glob_sqlite3 dir =
     filter (\<lambda>name. endswith name ''.sqlite3'' \<and> take 1 name \<noteq> ''.'') (map fst dir)"

text \<open>\<^verbatim>\<open>name.replace('.sqlite3', '')\<close> deletes every occurrence, from left to right.\<close>

fun replace_sqlite3 :: "string \<Rightarrow> string" where
  "replace_sqlite3 [] = []"
| "replace_sqlite3 (c # cs) =
     (if take 8 (c # cs) = ''.sqlite3'' then replace_sqlite3 (drop 7 cs)
      else c # replace_sqlite3 cs)"

text \<open>
  The list comprehension of \<^verbatim>\<open>strptime\<close> calls raises \<^verbatim>\<open>ValueError\<close> at the first name
  that is not a date; the \<^verbatim>\<open>except\<close> clause turns that into \<open>None\<close>, whatever the other
  names are. \<open>parse_all\<close> is that comprehension.
\<close>

fun parse_all :: "string list \<Rightarrow> date list option" where
  "parse_all [] = Some []"
| "parse_all (d # ds) =
     (case strptime d of
        None \<Rightarrow> None
      | Some x \<Rightarrow> (case parse_all ds of None \<Rightarrow> None | Some xs \<Rightarrow> Some (x # xs)))"

definition get_ultima_data_db :: "directory \<Rightarrow> date option" where
  "get_ultima_data_db dir =
     (let db_files = glob_sqlite3 dir in
      if db_files = [] then None
      else
        let datas = map replace_sqlite3 db_files in
        (case parse_all datas of
           None \<Rightarrow> None
         | Some [] \<Rightarrow> None
         | Some (x # xs) \<Rightarrow> Some (fold max xs x)))"

text \<open>
  Writing one day: \<^verbatim>\<open>_ensure_table_exists\<close> followed by \<^verbatim>\<open>to_sql(if_exists='replace')\<close>.
  The file is created when it is missing, and its table then holds exactly the new rows.
  On a file SQLite cannot read the first statement raises, and nothing catches it.
\<close>

definition to_sql_replace :: "string \<Rightarrow> bar list \<Rightarrow> directory \<Rightarrow> error + directory" where
  "to_sql_replace db_path novos_dados dir =
     (case map_of dir db_path of
        Some Corrupt \<Rightarrow> Inl DatabaseError
      | _ \<Rightarrow> Inr (AList.update db_path (Table novos_dados) dir))"

text \<open>
  What a call of \<^verbatim>\<open>sincronizar_dados_historicos\<close> leaves behind: the directory, the dates
  for which the provider was called, in order (an observation added to the model), and
  the exception that ended the call, if one did.
\<close>

record sync_result =
  files :: directory
  fetched :: "date list"
  failure :: "error option"

text \<open>
  The loop over \<^verbatim>\<open>current_date\<close>. The provider \<open>yf\<close> is \<^verbatim>\<open>yf.download\<close> for one day at
  one-minute interval, with the column and timezone normalisation applied; it handles
  its own errors and returns an empty frame for them.
\<close>

function sync_loop :: "(date \<Rightarrow> bar list) \<Rightarrow> directory \<Rightarrow> date \<Rightarrow> date \<Rightarrow> sync_result" where
  "sync_loop yf dir current_date data_final =
     (if current_date < data_final then
        (if weekday current_date < 5 then
           (let novos_dados = yf current_date in
            if novos_dados \<noteq> [] then
              (case to_sql_replace (get_db_path_for_date current_date) novos_dados dir of
                 Inl e \<Rightarrow> \<lparr>files = dir, fetched = [current_date], failure = Some e\<rparr>
               | Inr dir' \<Rightarrow>
                   (let r = sync_loop yf dir' (current_date + 1) data_final
                    in r\<lparr>fetched := current_date # fetched r\<rparr>))
            else
              (let r = sync_loop yf dir (current_date + 1) data_final
               in r\<lparr>fetched := current_date # fetched r\<rparr>))
         else sync_loop yf dir (current_date + 1) data_final)
      else \<lparr>files = dir, fetched = [], failure = None\<rparr>)"
  by pat_completeness auto
termination
  by (relation "measure (\<lambda>(yf, dir, current_date, data_final). nat (data_final - current_date))")
     auto

declare sync_loop.simps [simp del]

definition data_inicial :: "directory \<Rightarrow> date \<Rightarrow> date" where
  "data_inicial dir today =
     (case get_ultima_data_db dir of
        None \<Rightarrow> today - 6
      | Some ultima_data_db \<Rightarrow> ultima_data_db + 1)"

definition sincronizar_dados_historicos ::
    "(date \<Rightarrow> bar list) \<Rightarrow> date \<Rightarrow> directory \<Rightarrow> sync_result" where
  "sincronizar_dados_historicos yf today dir =
     (let start = data_inicial dir today;
          data_final = today
      in if data_final \<le> start then \<lparr>files = dir, fetched = [], failure = None\<rparr>
         else sync_loop yf dir start data_final)"

text \<open>
  What the loop reads for one day: the rows of the day's table when its file exists and
  can be read, and nothing otherwise.
\<close>

definition day_rows :: "directory \<Rightarrow> date \<Rightarrow> bar list option" where
  "day_rows dir d =
     (case map_of dir (get_db_path_for_date d) of
        Some (Table rows) \<Rightarrow> Some rows
      | _ \<Rightarrow> None)"

text \<open>
  The deduplication in the words of the specification, as a recursion over the frame:
  a row is dropped when its timestamp has been seen at an earlier row, and kept
  otherwise. It is compared with the mask of the program below.
\<close>

fun keep_first :: "int list \<Rightarrow> bar list \<Rightarrow> bar list" where
  "keep_first seen [] = []"
| "keep_first seen (b # df) =
     (if Datetime b \<in> set seen then keep_first (Datetime b # seen) df
      else b # keep_first (Datetime b # seen) df)"

text \<open>
  The aggregation rule in the words of the specification: the bar of a bucket with the
  contributing rows \<open>cs\<close>, in time order, has the open of the first row, the highest
  high, the lowest low, the close of the last row and the sum of the volumes.
\<close>

definition ohlcv :: "int \<Rightarrow> bar list \<Rightarrow> bar" where
  "ohlcv lbl cs =
     \<lparr>Datetime = lbl, Open = Open (hd cs), High = Max (set (map High cs)),
      Low = Min (set (map Low cs)), Close = Close (last cs),
      Volume = sum_list (map Volume cs)\<rparr>"

text \<open>The labels of the bins \<^verbatim>\<open>resample\<close> produces, in order.\<close>

definition bin_labels :: "nat \<Rightarrow> bar list \<Rightarrow> int list" where
  "bin_labels w df =
     map (\<lambda>k. first_edge w df + int k * int w)
       [0..<nat ((Datetime (last df) - first_edge w df) div int w) + 1]"

text \<open>
  The month and the day within the year of \<^verbatim>\<open>_ord2ymd\<close>, as a function of its own:
  \<open>n\<close> is the day of the year counted from 0.
\<close>

definition month_day :: "bool \<Rightarrow> int \<Rightarrow> int \<times> int" where
  "month_day leapyear n =
     (let month = (n + 50) div 32;
          preceding = sum_list (take (nat (month - 1)) DAYS_IN_MONTH)
                        + (if 2 < month \<and> leapyear then 1 else 0)
      in if n < preceding
         then (month - 1,
               n - (preceding - (DAYS_IN_MONTH ! nat (month - 2)
                                   + (if month - 1 = 2 \<and> leapyear then 1 else 0))) + 1)
         else (month, n - preceding + 1))"

text \<open>
  The days a run of the loop from \<open>cur\<close> to \<open>fin\<close> writes when nothing fails: the weekdays
  of the range with a non-empty answer of the provider.
\<close>

definition writes :: "(date \<Rightarrow> bar list) \<Rightarrow> date \<Rightarrow> date \<Rightarrow> date set" where
  "writes yf cur fin = {d. cur \<le> d \<and> d < fin \<and> weekday d < 5 \<and> yf d \<noteq> []}"

text \<open>The date the cursor scan reads from a file name, if it is one.\<close>

definition date_of_name :: "string \<Rightarrow> date option" where
  "date_of_name name = strptime (replace_sqlite3 name)"

section \<open>Example inputs\<close>

text \<open>
  Concrete inputs on which the theorems below are instantiated. Ordinal 739040 is Monday
  2024-06-03, so 739044 is Friday 2024-06-07 and 739038, 739039 are the weekend before.
\<close>

definition example_bar :: "int \<Rightarrow> bar" where
  "example_bar t = \<lparr>Datetime = t, Open = 10, High = 11, Low = 9, Close = 10, Volume = 100\<rparr>"

text \<open>A provider with one bar per day at 10:00, and no data for Wednesday 2024-06-05.\<close>

definition example_yf :: "date \<Rightarrow> bar list" where
  "example_yf d = (if d = 739042 then [] else [example_bar (d * 1440 + 600)])"

text \<open>
  A cache with a store for Thursday 2024-06-06 and an unreadable file for Wednesday
  2024-06-05.
\<close>

definition example_dir :: directory where
  "example_dir =
     [(''2024-06-06.sqlite3'', Table [example_bar (739043 * 1440 + 600)]),
      (''2024-06-05.sqlite3'', Corrupt)]"

text \<open>
  The minute bars of the specification's aggregation example, 09:00 to 09:04 of day \<open>d\<close>.
\<close>

definition spec_bars :: "date \<Rightarrow> bar list" where
  "spec_bars d =
     [\<lparr>Datetime = d * 1440 + 540, Open = 10, High = 10.5, Low = 9.8, Close = 10.2, Volume = 100\<rparr>,
      \<lparr>Datetime = d * 1440 + 541, Open = 10.2, High = 10.3, Low = 10.0, Close = 10.1, Volume = 50\<rparr>,
      \<lparr>Datetime = d * 1440 + 542, Open = 10.1, High = 10.4, Low = 10.1, Close = 10.3, Volume = 75\<rparr>,
      \<lparr>Datetime = d * 1440 + 543, Open = 10.3, High = 10.6, Low = 10.2, Close = 10.5, Volume = 60\<rparr>,
      \<lparr>Datetime = d * 1440 + 544, Open = 10.5, High = 10.5, Low = 10.3, Close = 10.4, Volume = 40\<rparr>]"

text \<open>A cache with one bar at 10:00 on each of 2024-06-06 and 2024-06-07.\<close>

definition two_day_dir :: directory where
  "two_day_dir =
     [(''2024-06-07.sqlite3'', Table [example_bar (739044 * 1440 + 600)]),
      (''2024-06-06.sqlite3'', Table [example_bar (739043 * 1440 + 600)])]"

text \<open>
  Two overlapping stores: the store of 2024-06-07 also holds a row for 10:00 of
  2024-06-06, with other values than the row of the store of 2024-06-06.
\<close>

definition overlap_dir :: directory where
  "overlap_dir =
     [(''2024-06-07.sqlite3'',
         Table [\<lparr>Datetime = 739043 * 1440 + 600, Open = 20, High = 21, Low = 19, Close = 20,
                 Volume = 7\<rparr>,
                example_bar (739044 * 1440 + 600)]),
      (''2024-06-06.sqlite3'', Table [example_bar (739043 * 1440 + 600)])]"

text \<open>
  A cache where a file that is not named by a date stands beside the store of
  2024-06-06.
\<close>

definition junk_dir :: directory where
  "junk_dir =
     [(''notes.sqlite3'', Table []),
      (''2024-06-06.sqlite3'',
         Table [\<lparr>Datetime = 739043 * 1440 + 600, Open = 1, High = 2, Low = 1, Close = 2,
                 Volume = 5\<rparr>])]"


section \<open>Evaluation rules\<close>

lemmas calendar_defs = strftime_def ord2ymd_def Let_def DAYS_IN_MONTH_def digit_def
  strptime_def parse_year_def parse_month_def parse_day_def digit_val_def days_in_month_def
  is_leap_def ymd2ord_def days_before_year_def days_before_month_def weekday_def

lemmas sync_defs = sincronizar_dados_historicos_def data_inicial_def get_ultima_data_db_def
  glob_sqlite3_def endswith_def sync_loop.simps to_sql_replace_def get_db_path_for_date_def

section \<open>The calendar: file names and dates\<close>

text \<open>
  \<^verbatim>\<open>_ord2ymd\<close> inverts \<^verbatim>\<open>_ymd2ord\<close>, and on the dates of Python (ordinals 1 to 3652059,
  that is 0001-01-01 to 9999-12-31) parsing the name of a Day Store file gives back its
  date.
\<close>

lemma mod_zero_iff_full:
  fixes m q r x :: int
  assumes "x = m * q + r" "1 \<le> r" "r \<le> m"
  shows "x mod m = 0 \<longleftrightarrow> r = m"
proof (cases "r = m")
  case True
  with assms(1) have "x = m * (q + 1)" by (simp add: algebra_simps)
  then show ?thesis using True by simp
next
  case False
  with assms have "x mod m = r" by (intro int_mod_pos_eq [of x m q r]) simp_all
  with assms False show ?thesis by simp
qed

lemma leap_general:
  fixes a b c e :: int
  assumes "0 \<le> b" "b \<le> 3" "0 \<le> c" "c \<le> 24" "0 \<le> e" "e \<le> 3"
  shows "is_leap (400 * a + 100 * b + 4 * c + e + 1) \<longleftrightarrow> e = 3 \<and> (c \<noteq> 24 \<or> b = 3)"
proof -
  let ?x = "400 * a + 100 * b + 4 * c + e + 1"
  have m4: "?x mod 4 = 0 \<longleftrightarrow> e + 1 = 4"
    using assms by (intro mod_zero_iff_full [of _ _ "100 * a + 25 * b + c"]) simp_all
  have m100: "?x mod 100 = 0 \<longleftrightarrow> 4 * c + e + 1 = 100"
    using assms by (intro mod_zero_iff_full [of _ _ "4 * a + b"]) simp_all
  have m400: "?x mod 400 = 0 \<longleftrightarrow> 100 * b + 4 * c + e + 1 = 400"
    using assms by (intro mod_zero_iff_full [of _ _ "a"]) simp_all
  show ?thesis unfolding is_leap_def m4 m100 m400 using assms by auto
qed

lemma dby_general:
  fixes a b c e :: int
  assumes "0 \<le> b" "b \<le> 3" "0 \<le> c" "c \<le> 24" "0 \<le> e" "e \<le> 3"
  shows "days_before_year (400 * a + 100 * b + 4 * c + e + 1) =
           146097 * a + 36524 * b + 1461 * c + 365 * e"
proof -
  let ?y = "400 * a + 100 * b + 4 * c + e"
  have d4: "?y div 4 = 100 * a + 25 * b + c"
    using assms by (intro int_div_pos_eq [of _ _ _ e]) simp_all
  have d100: "?y div 100 = 4 * a + b"
    using assms by (intro int_div_pos_eq [of _ _ _ "4 * c + e"]) simp_all
  have d400: "?y div 400 = a"
    using assms by (intro int_div_pos_eq [of _ _ _ "100 * b + 4 * c + e"]) simp_all
  show ?thesis unfolding days_before_year_def Let_def
    using d4 d100 d400 by simp
qed

lemma div_mult_bounds: "0 < (w::int) \<Longrightarrow> x div w * w \<le> x \<and> x < x div w * w + w"
  using div_mult_mod_eq [of x w] pos_mod_bound [of w x] pos_mod_sign [of w x] by linarith

lemma month_day_correct:
  assumes "0 \<le> r" "r \<le> 364" "month_day L r = (m, d)"
  shows "1 \<le> m \<and> m \<le> 12 \<and> 1 \<le> d
         \<and> d \<le> (if m = 2 \<and> L then 29 else DAYS_IN_MONTH ! nat (m - 1))
         \<and> sum_list (take (nat (m - 1)) DAYS_IN_MONTH) + (if 2 < m \<and> L then 1 else 0) + d = r + 1"
proof -
  define k where "k = (r + 50) div 32"
  from div_mult_bounds [of 32 "r + 50"] have kb: "32 * k \<le> r + 50" "r + 50 < 32 * k + 32"
    by (simp_all add: k_def)
  with assms(1,2) have "1 \<le> k" "k \<le> 12" by linarith+
  then have "k = 1 \<or> k = 2 \<or> k = 3 \<or> k = 4 \<or> k = 5 \<or> k = 6 \<or> k = 7 \<or> k = 8 \<or> k = 9
      \<or> k = 10 \<or> k = 11 \<or> k = 12" by arith
  then show ?thesis
    using kb assms
    by (elim disjE)
       (auto simp: month_day_def k_def [symmetric] Let_def DAYS_IN_MONTH_def split: if_splits)
qed

lemma ord2ymd_params:
  assumes "n - 1 = 146097 * a + r400" "0 \<le> r400" "r400 < 146097"
    and "r400 = 36524 * b + r100" "0 \<le> r100" "r100 < 36524"
    and "r100 = 1461 * c + r4" "0 \<le> r4" "r4 < 1461"
    and "r4 = 365 * e + r1" "0 \<le> r1" "r1 < 365"
  shows "ord2ymd n =
     (if e = 4 \<or> b = 4 then (a * 400 + b * 100 + c * 4 + e, 12, 31)
      else (case month_day (e = 3 \<and> (c \<noteq> 24 \<or> b = 3)) r1 of
              (m, d) \<Rightarrow> (a * 400 + 1 + b * 100 + c * 4 + e, m, d)))"
proof -
  have 1: "(n - 1) div 146097 = a" "(n - 1) mod 146097 = r400"
    using assms(1-3) by (simp_all add: int_div_pos_eq int_mod_pos_eq)
  have 2: "r400 div 36524 = b" "r400 mod 36524 = r100"
    using assms(4-6) by (simp_all add: int_div_pos_eq int_mod_pos_eq)
  have 3: "r100 div 1461 = c" "r100 mod 1461 = r4"
    using assms(7-9) by (simp_all add: int_div_pos_eq int_mod_pos_eq)
  have 4: "r4 div 365 = e" "r4 mod 365 = r1"
    using assms(10-12) by (simp_all add: int_div_pos_eq int_mod_pos_eq)
  show ?thesis
    by (simp add: ord2ymd_def month_day_def Let_def 1 2 3 4)
qed

lemma ord2ymd_correct:
  assumes "1 \<le> n" and "ord2ymd n = (y, m, d)"
  shows "1 \<le> y \<and> 1 \<le> m \<and> m \<le> 12 \<and> 1 \<le> d \<and> d \<le> days_in_month y m \<and> ymd2ord y m d = n"
proof -
  define a where "a = (n - 1) div 146097"
  define r400 where "r400 = (n - 1) mod 146097"
  define b where "b = r400 div 36524"
  define r100 where "r100 = r400 mod 36524"
  define c where "c = r100 div 1461"
  define r4 where "r4 = r100 mod 1461"
  define e where "e = r4 div 365"
  define r1 where "r1 = r4 mod 365"
  have A: "n - 1 = 146097 * a + r400" "0 \<le> r400" "r400 < 146097"
    by (simp_all add: a_def r400_def)
  have B: "r400 = 36524 * b + r100" "0 \<le> r100" "r100 < 36524"
    by (simp_all add: b_def r100_def)
  have C: "r100 = 1461 * c + r4" "0 \<le> r4" "r4 < 1461"
    by (simp_all add: c_def r4_def)
  have E: "r4 = 365 * e + r1" "0 \<le> r1" "r1 < 365"
    by (simp_all add: e_def r1_def)
  have a0: "0 \<le> a" using assms(1) by (simp add: a_def pos_imp_zdiv_nonneg_iff)
  have b0: "0 \<le> b" using A(2) by (simp add: b_def pos_imp_zdiv_nonneg_iff)
  have c0: "0 \<le> c" using B(2) by (simp add: c_def pos_imp_zdiv_nonneg_iff)
  have e0: "0 \<le> e" using C(2) by (simp add: e_def pos_imp_zdiv_nonneg_iff)
  have b4: "b \<le> 4" using A(3) B(1,2) by arith
  have c24: "c \<le> 24" using B(3) C(1,2) by arith
  have e4: "e \<le> 4" using C(3) E(1,2) by arith
  note P = ord2ymd_params [OF A B C E]
  show ?thesis
  proof (cases "b = 4")
    case True
    with A B have "r100 = 0" by linarith
    with C c0 have "c = 0" "r4 = 0" by linarith+
    with E e0 have "e = 0" "r1 = 0" by linarith+
    from P assms(2) True \<open>c = 0\<close> \<open>e = 0\<close> have y: "y = 400 * a + 400" "m = 12" "d = 31" by simp_all
    have yy: "y = 400 * a + 100 * 3 + 4 * 24 + 3 + 1" using y by simp
    have l: "is_leap y" unfolding yy by (subst leap_general) simp_all
    have "days_before_year y = 146097 * a + 145731"
      unfolding yy by (subst dby_general) simp_all
    with l y A B True \<open>r100 = 0\<close> a0 show ?thesis
      by (simp add: ymd2ord_def days_before_month_def days_in_month_def DAYS_IN_MONTH_def)
  next
    case bn: False
    with b4 have b3: "b \<le> 3" by simp
    show ?thesis
    proof (cases "e = 4")
      case True
      with E C(3) have r: "r4 = 1460" "r1 = 0" by linarith+
      with C B have c23: "c \<le> 23" by arith
      from P assms(2) True have y: "y = 400 * a + 100 * b + 4 * c + 3 + 1" "m = 12" "d = 31"
        by simp_all
      have l: "is_leap y" unfolding y using b0 b3 c0 c23 by (subst leap_general) simp_all
      have "days_before_year y = 146097 * a + 36524 * b + 1461 * c + 1095"
        unfolding y using b0 b3 c0 c23 by (subst dby_general) simp_all
      with l y A B C r a0 b0 c0 show ?thesis
        by (simp add: ymd2ord_def days_before_month_def days_in_month_def DAYS_IN_MONTH_def)
    next
      case en: False
      with e4 have e3: "e \<le> 3" by simp
      let ?L = "e = 3 \<and> (c \<noteq> 24 \<or> b = 3)"
      obtain m' d' where md: "month_day ?L r1 = (m', d')" by (cases "month_day ?L r1")
      from P assms(2) bn en md have y: "y = 400 * a + 100 * b + 4 * c + e + 1" "m = m'" "d = d'"
        by simp_all
      have l: "is_leap y \<longleftrightarrow> ?L" unfolding y using b0 b3 c0 c24 e0 e3 by (rule leap_general)
      have dby: "days_before_year y = 146097 * a + 36524 * b + 1461 * c + 365 * e"
        unfolding y using b0 b3 c0 c24 e0 e3 by (rule dby_general)
      have r364: "r1 \<le> 364" using E(3) by simp
      from month_day_correct [OF E(2) r364 md]
      have M: "1 \<le> m'" "m' \<le> 12" "1 \<le> d'"
        "d' \<le> (if m' = 2 \<and> ?L then 29 else DAYS_IN_MONTH ! nat (m' - 1))"
        "sum_list (take (nat (m' - 1)) DAYS_IN_MONTH) + (if 2 < m' \<and> ?L then 1 else 0) + d' = r1 + 1"
        by blast+
      have "1 \<le> y" using y a0 b0 c0 e0 by simp
      moreover have "d' \<le> days_in_month y m'"
        unfolding days_in_month_def l using M(4) by simp
      moreover have "ymd2ord y m' d' = n"
        unfolding ymd2ord_def days_before_month_def l dby using M(5) A B C E by simp
      ultimately show ?thesis using M(1-3) y(2,3) by simp
    qed
  qed
qed

lemma digit_ok:
  assumes "0 \<le> k" "k \<le> 9"
  shows "digit_val (digit k) = Some k" "digit k \<noteq> CHR ''-''" "digit k \<noteq> CHR ''.''"
proof -
  from assms have "k = 0 \<or> k = 1 \<or> k = 2 \<or> k = 3 \<or> k = 4 \<or> k = 5 \<or> k = 6 \<or> k = 7 \<or> k = 8 \<or> k = 9"
    by arith
  then show "digit_val (digit k) = Some k" "digit k \<noteq> CHR ''-''" "digit k \<noteq> CHR ''.''"
    by (auto simp: digit_def digit_val_def)
qed

lemma digit_mod10:
  "digit_val (digit (x mod 10)) = Some (x mod 10)" "digit (x mod 10) \<noteq> CHR ''-''"
  "digit (x mod 10) \<noteq> CHR ''.''"
proof -
  have "0 \<le> x mod 10" "x mod 10 \<le> 9"
    using pos_mod_bound [of 10 x] by simp_all
  then show "digit_val (digit (x mod 10)) = Some (x mod 10)" "digit (x mod 10) \<noteq> CHR ''-''"
    "digit (x mod 10) \<noteq> CHR ''.''"
    by (rule digit_ok)+
qed

lemma parse_year_render:
  assumes "0 \<le> y" "y \<le> 9999"
  shows "parse_year [digit (y div 1000), digit (y div 100 mod 10), digit (y div 10 mod 10),
           digit (y mod 10)] = Some y"
proof -
  have a: "0 \<le> y div 1000" "y div 1000 \<le> 9"
    using assms div_mult_bounds [of 1000 y] by linarith+
  have 1: "y div 10 * 10 + y mod 10 = y" by simp
  have "y div 10 div 10 = y div 100" by (simp add: zdiv_zmult2_eq [symmetric])
  with div_mult_mod_eq [of "y div 10" 10]
  have 2: "y div 100 * 10 + y div 10 mod 10 = y div 10" by simp
  have "y div 100 div 10 = y div 1000" by (simp add: zdiv_zmult2_eq [symmetric])
  with div_mult_mod_eq [of "y div 100" 10]
  have 3: "y div 1000 * 10 + y div 100 mod 10 = y div 100" by simp
  from 1 2 3
  have i: "y div 1000 * 1000 + y div 100 mod 10 * 100 + y div 10 mod 10 * 10 + y mod 10 = y"
    by linarith
  have "parse_year [digit (y div 1000), digit (y div 100 mod 10), digit (y div 10 mod 10),
           digit (y mod 10)]
        = Some (y div 1000 * 1000 + y div 100 mod 10 * 100 + y div 10 mod 10 * 10 + y mod 10)"
    by (simp add: parse_year_def digit_ok [OF a] digit_mod10)
  then show ?thesis by (simp only: i)
qed

lemma parse_month_render:
  assumes "1 \<le> m" "m \<le> 12"
  shows "parse_month [digit (m div 10), digit (m mod 10)] = Some m"
proof -
  from assms have "m = 1 \<or> m = 2 \<or> m = 3 \<or> m = 4 \<or> m = 5 \<or> m = 6 \<or> m = 7 \<or> m = 8 \<or> m = 9
      \<or> m = 10 \<or> m = 11 \<or> m = 12" by arith
  then show ?thesis
    by (elim disjE) (simp_all add: parse_month_def digit_ok)
qed

lemma parse_day_render:
  assumes "1 \<le> d" "d \<le> 31"
  shows "parse_day [digit (d div 10), digit (d mod 10)] = Some d"
proof -
  have a: "0 \<le> d div 10" "d div 10 \<le> 3"
    using assms div_mult_bounds [of 10 d] by linarith+
  have e: "d div 10 * 10 + d mod 10 = d" by simp
  have n: "d div 10 = 0 \<Longrightarrow> 1 \<le> d mod 10" "d div 10 = 3 \<Longrightarrow> d mod 10 \<le> 1"
    using assms e by linarith+
  from a have "d div 10 = 0 \<or> d div 10 = 1 \<or> d div 10 = 2 \<or> d div 10 = 3" by arith
  then show ?thesis
    using a e n by (elim disjE) (simp_all add: parse_day_def digit_ok digit_mod10)
qed

lemma split_dash_render:
  assumes "a \<noteq> CHR ''-''" "b \<noteq> CHR ''-''" "c \<noteq> CHR ''-''" "d \<noteq> CHR ''-''"
    "e \<noteq> CHR ''-''" "f \<noteq> CHR ''-''" "g \<noteq> CHR ''-''" "h \<noteq> CHR ''-''"
  shows "split_dash ([a, b, c, d] @ ''-'' @ [e, f] @ ''-'' @ [g, h]) = [[a, b, c, d], [e, f], [g, h]]"
  using assms by simp

lemma sum_take_nonneg: "\<forall>x \<in> set xs. (0::int) \<le> x \<Longrightarrow> 0 \<le> sum_list (take k xs)"
  by (meson in_set_takeD sum_list_nonneg)

lemma days_before_month_nonneg: "0 \<le> days_before_month y m"
  using sum_take_nonneg [of DAYS_IN_MONTH "nat (m - 1)"]
  by (simp add: days_before_month_def DAYS_IN_MONTH_def)

lemma days_before_year_big:
  assumes "10000 \<le> y"
  shows "3652059 \<le> days_before_year y"
proof -
  define z where "z = y - 1"
  from div_mult_bounds [of 4 z] div_mult_bounds [of 100 z] div_mult_bounds [of 400 z] assms
  show ?thesis
    unfolding days_before_year_def Let_def z_def [symmetric] by (simp add: z_def)
qed

lemma days_in_month_le: "1 \<le> m \<Longrightarrow> m \<le> 12 \<Longrightarrow> days_in_month y m \<le> 31"
proof -
  assume "1 \<le> m" "m \<le> 12"
  then have "m = 1 \<or> m = 2 \<or> m = 3 \<or> m = 4 \<or> m = 5 \<or> m = 6 \<or> m = 7 \<or> m = 8 \<or> m = 9
      \<or> m = 10 \<or> m = 11 \<or> m = 12" by arith
  then show ?thesis
    by (elim disjE) (simp_all add: days_in_month_def DAYS_IN_MONTH_def)
qed

lemma strptime_strftime:
  assumes "1 \<le> n" "n \<le> 3652059"
  shows "strptime (strftime n) = Some n"
proof -
  obtain y m d where o: "ord2ymd n = (y, m, d)" by (cases "ord2ymd n")
  from ord2ymd_correct [OF assms(1) o]
  have v: "1 \<le> y" "1 \<le> m" "m \<le> 12" "1 \<le> d" "d \<le> days_in_month y m" "ymd2ord y m d = n"
    by simp_all
  have "y \<le> 9999"
  proof (rule ccontr)
    assume "\<not> y \<le> 9999"
    then have "3652059 \<le> days_before_year y" by (intro days_before_year_big) simp
    with v(4,6) days_before_month_nonneg [of y m] assms(2) show False
      by (simp add: ymd2ord_def)
  qed
  from v(4,5) days_in_month_le [OF v(2,3), of y] have d31: "d \<le> 31" by simp
  have y9: "0 \<le> y div 1000" "y div 1000 \<le> 9"
    using v(1) \<open>y \<le> 9999\<close> div_mult_bounds [of 1000 y] by linarith+
  have m1: "0 \<le> m div 10" "m div 10 \<le> 9"
    using v(2,3) div_mult_bounds [of 10 m] by linarith+
  have d3: "0 \<le> d div 10" "d div 10 \<le> 9"
    using v(4) d31 div_mult_bounds [of 10 d] by linarith+
  have sp: "split_dash (strftime n) =
      [[digit (y div 1000), digit (y div 100 mod 10), digit (y div 10 mod 10), digit (y mod 10)],
       [digit (m div 10), digit (m mod 10)], [digit (d div 10), digit (d mod 10)]]"
    unfolding strftime_def o prod.case
    by (rule split_dash_render) (simp_all add: digit_ok [OF y9] digit_ok [OF m1] digit_ok [OF d3] digit_mod10)
  show ?thesis
    unfolding strptime_def sp
    using v parse_year_render [of y] parse_month_render [OF v(2,3)] parse_day_render [OF v(4) d31]
      \<open>y \<le> 9999\<close>
    by simp
qed

lemma strftime_chars:
  assumes "1 \<le> n" "n \<le> 3652059"
  shows "\<exists>a b c d e f g h. strftime n = [a, b, c, d, CHR ''-'', e, f, CHR ''-'', g, h]
           \<and> a \<noteq> CHR ''.'' \<and> b \<noteq> CHR ''.'' \<and> c \<noteq> CHR ''.'' \<and> d \<noteq> CHR ''.''
           \<and> e \<noteq> CHR ''.'' \<and> f \<noteq> CHR ''.'' \<and> g \<noteq> CHR ''.'' \<and> h \<noteq> CHR ''.''"
proof -
  obtain y m d where o: "ord2ymd n = (y, m, d)" by (cases "ord2ymd n")
  from ord2ymd_correct [OF assms(1) o]
  have v: "1 \<le> y" "1 \<le> m" "m \<le> 12" "1 \<le> d" "d \<le> days_in_month y m" "ymd2ord y m d = n"
    by simp_all
  have "y \<le> 9999"
  proof (rule ccontr)
    assume "\<not> y \<le> 9999"
    then have "3652059 \<le> days_before_year y" by (intro days_before_year_big) simp
    with v(4,6) days_before_month_nonneg [of y m] assms(2) show False
      by (simp add: ymd2ord_def)
  qed
  from v(4,5) days_in_month_le [OF v(2,3), of y] have d31: "d \<le> 31" by simp
  have y9: "0 \<le> y div 1000" "y div 1000 \<le> 9"
    using v(1) \<open>y \<le> 9999\<close> div_mult_bounds [of 1000 y] by linarith+
  have m1: "0 \<le> m div 10" "m div 10 \<le> 9"
    using v(2,3) div_mult_bounds [of 10 m] by linarith+
  have d3: "0 \<le> d div 10" "d div 10 \<le> 9"
    using v(4) d31 div_mult_bounds [of 10 d] by linarith+
  show ?thesis
    unfolding strftime_def o prod.case
    by (simp add: digit_ok [OF y9] digit_ok [OF m1] digit_ok [OF d3] digit_mod10)
qed

lemma path_roundtrip:
  assumes "1 \<le> n" "n \<le> 3652059"
  shows "replace_sqlite3 (get_db_path_for_date n) = strftime n"
    and "endswith (get_db_path_for_date n) ''.sqlite3''"
    and "take 1 (get_db_path_for_date n) \<noteq> ''.''"
proof -
  from strftime_chars [OF assms] obtain a b c d e f g h
    where s: "strftime n = [a, b, c, d, CHR ''-'', e, f, CHR ''-'', g, h]"
      and nd: "a \<noteq> CHR ''.''" "b \<noteq> CHR ''.''" "c \<noteq> CHR ''.''" "d \<noteq> CHR ''.''"
        "e \<noteq> CHR ''.''" "f \<noteq> CHR ''.''" "g \<noteq> CHR ''.''" "h \<noteq> CHR ''.''" by blast
  from nd show "replace_sqlite3 (get_db_path_for_date n) = strftime n"
    by (simp add: get_db_path_for_date_def s)
  show "endswith (get_db_path_for_date n) ''.sqlite3''"
    by (simp add: get_db_path_for_date_def endswith_def)
  from nd show "take 1 (get_db_path_for_date n) \<noteq> ''.''"
    by (simp add: get_db_path_for_date_def s)
qed

lemma days_before_year_nonneg: "1 \<le> y \<Longrightarrow> 0 \<le> days_before_year y"
proof -
  assume "1 \<le> y"
  then have z: "0 \<le> y - 1" by simp
  from zdiv_mono2 [OF z, of 4 100] have "(y - 1) div 100 \<le> (y - 1) div 4" by simp
  moreover from z have "0 \<le> (y - 1) div 400" by (simp add: pos_imp_zdiv_nonneg_iff)
  ultimately show ?thesis using z by (simp add: days_before_year_def Let_def)
qed

lemma digit_val_range: "digit_val c = Some a \<Longrightarrow> 0 \<le> a \<and> a \<le> 9"
  by (auto simp: digit_val_def split: if_splits)

lemma parse_day_pos: "parse_day s = Some d \<Longrightarrow> 1 \<le> d"
  by (auto simp: parse_day_def split: list.splits option.splits if_splits dest!: digit_val_range)

lemma strptime_pos: "strptime s = Some n \<Longrightarrow> 1 \<le> n"
proof -
  assume "strptime s = Some n"
  then obtain y m d where y: "1 \<le> y" and d: "parse_day (split_dash s ! 2) = Some d"
    and n: "n = ymd2ord y m d"
    by (auto simp: strptime_def split: list.splits option.splits if_splits)
  from days_before_year_nonneg [OF y] days_before_month_nonneg [of y m] parse_day_pos [OF d] n
  show ?thesis by (simp add: ymd2ord_def)
qed

lemma date_of_path:
  "1 \<le> n \<Longrightarrow> n \<le> 3652059 \<Longrightarrow> strptime (replace_sqlite3 (get_db_path_for_date n)) = Some n"
  by (simp add: path_roundtrip strptime_strftime)

lemma path_inj:
  assumes "1 \<le> a" "a \<le> 3652059" "1 \<le> b" "b \<le> 3652059"
    and "get_db_path_for_date a = get_db_path_for_date b"
  shows "a = b"
proof -
  from assms(5)
  have "strptime (replace_sqlite3 (get_db_path_for_date a)) =
      strptime (replace_sqlite3 (get_db_path_for_date b))"
    by (rule arg_cong)
  then show ?thesis
    by (simp only: date_of_path [OF assms(1,2)] date_of_path [OF assms(3,4)] option.inject)
qed

section \<open>The loop of the synchronizer\<close>

lemma sync_loop_done:
  "\<not> cur < fin \<Longrightarrow> sync_loop yf dir cur fin = \<lparr>files = dir, fetched = [], failure = None\<rparr>"
  by (simp add: sync_loop.simps [of yf dir cur fin])

lemma sync_loop_weekend:
  "cur < fin \<Longrightarrow> \<not> weekday cur < 5 \<Longrightarrow> sync_loop yf dir cur fin = sync_loop yf dir (cur + 1) fin"
  by (simp add: sync_loop.simps [of yf dir cur fin])

lemma sync_loop_empty:
  "cur < fin \<Longrightarrow> weekday cur < 5 \<Longrightarrow> yf cur = [] \<Longrightarrow>
     sync_loop yf dir cur fin =
       (sync_loop yf dir (cur + 1) fin)\<lparr>fetched := cur # fetched (sync_loop yf dir (cur + 1) fin)\<rparr>"
  by (simp add: sync_loop.simps [of yf dir cur fin] Let_def)

lemma sync_loop_fail:
  "cur < fin \<Longrightarrow> weekday cur < 5 \<Longrightarrow> yf cur \<noteq> [] \<Longrightarrow>
   to_sql_replace (get_db_path_for_date cur) (yf cur) dir = Inl e \<Longrightarrow>
     sync_loop yf dir cur fin = \<lparr>files = dir, fetched = [cur], failure = Some e\<rparr>"
  by (simp add: sync_loop.simps [of yf dir cur fin] Let_def)

lemma sync_loop_write:
  "cur < fin \<Longrightarrow> weekday cur < 5 \<Longrightarrow> yf cur \<noteq> [] \<Longrightarrow>
   to_sql_replace (get_db_path_for_date cur) (yf cur) dir = Inr dir' \<Longrightarrow>
     sync_loop yf dir cur fin =
       (sync_loop yf dir' (cur + 1) fin)\<lparr>fetched := cur # fetched (sync_loop yf dir' (cur + 1) fin)\<rparr>"
  by (simp add: sync_loop.simps [of yf dir cur fin] Let_def)

text \<open>Induction along the loop: one case for each way an iteration can go.\<close>

lemma sync_loop_cases [case_names stop weekend empty failed stored]:
  assumes "\<And>dir cur. \<not> cur < fin \<Longrightarrow> P dir cur"
    and "\<And>dir cur. cur < fin \<Longrightarrow> \<not> weekday cur < 5 \<Longrightarrow> P dir (cur + 1) \<Longrightarrow> P dir cur"
    and "\<And>dir cur. cur < fin \<Longrightarrow> weekday cur < 5 \<Longrightarrow> yf cur = [] \<Longrightarrow> P dir (cur + 1) \<Longrightarrow> P dir cur"
    and "\<And>dir cur e. cur < fin \<Longrightarrow> weekday cur < 5 \<Longrightarrow> yf cur \<noteq> [] \<Longrightarrow>
           to_sql_replace (get_db_path_for_date cur) (yf cur) dir = Inl e \<Longrightarrow> P dir cur"
    and "\<And>dir cur dir'. cur < fin \<Longrightarrow> weekday cur < 5 \<Longrightarrow> yf cur \<noteq> [] \<Longrightarrow>
           to_sql_replace (get_db_path_for_date cur) (yf cur) dir = Inr dir' \<Longrightarrow>
           P dir' (cur + 1) \<Longrightarrow> P dir cur"
  shows "P dir cur"
proof (induction "nat (fin - cur)" arbitrary: cur dir)
  case 0
  then show ?case using assms(1) by simp
next
  case (Suc k)
  then have lt: "cur < fin" and k: "k = nat (fin - (cur + 1))" by linarith+
  show ?case
  proof (cases "weekday cur < 5")
    case False
    with lt Suc(1) [OF k] assms(2) show ?thesis by blast
  next
    case wd: True
    show ?thesis
    proof (cases "yf cur = []")
      case True
      with lt wd Suc(1) [OF k] assms(3) show ?thesis by blast
    next
      case ne: False
      show ?thesis
      proof (cases "to_sql_replace (get_db_path_for_date cur) (yf cur) dir")
        case (Inl e)
        with lt wd ne assms(4) show ?thesis by blast
      next
        case (Inr dir')
        with lt wd ne Suc(1) [OF k] assms(5) show ?thesis by blast
      qed
    qed
  qed
qed

lemma sync_loop_fetched:
  "d \<in> set (fetched (sync_loop yf dir cur fin)) \<Longrightarrow> cur \<le> d \<and> d < fin \<and> weekday d < 5"
proof (induction dir cur rule: sync_loop_cases [where fin = fin and yf = yf])
  case (stop dir cur)
  then show ?case by (simp add: sync_loop_done)
next
  case (weekend dir cur)
  then show ?case by (simp add: sync_loop_weekend)
next
  case (empty dir cur)
  then show ?case by (auto simp: sync_loop_empty)
next
  case (failed dir cur e)
  then show ?case by (simp add: sync_loop_fail)
next
  case (stored dir cur dir')
  then show ?case by (auto simp: sync_loop_write)
qed

lemma sync_fetched:
  "d \<in> set (fetched (sincronizar_dados_historicos yf today dir)) \<Longrightarrow>
     data_inicial dir today \<le> d \<and> d < today \<and> weekday d < 5"
  by (auto simp: sincronizar_dados_historicos_def Let_def dest: sync_loop_fetched split: if_splits)

section \<open>Weekday-only fetch\<close>

text \<open>
  Claim C7. During any sync, whatever the cache directory (and so whatever the cursor
  or the bootstrap window) and whatever the provider answers, no provider call is
  issued for a Saturday (weekday 5) or a Sunday (weekday 6).
\<close>

theorem C7_weekday_only_fetch:
  "\<forall>d \<in> set (fetched (sincronizar_dados_historicos yf today dir)). weekday d \<noteq> 5 \<and> weekday d \<noteq> 6"
  using sync_fetched [of _ yf today dir] by fastforce

text \<open>
  A sync on Friday 2024-06-07 from an empty cache walks over the weekend of 1 and 2 June
  and calls the provider for the four weekdays after it only.
\<close>

theorem C7_weekday_only_fetch_witness:
  "fetched (sincronizar_dados_historicos example_yf 739044 []) = [739040, 739041, 739042, 739043]
   \<and> weekday 739040 \<noteq> 5 \<and> weekday 739040 \<noteq> 6"
proof -
  have f: "fetched (sincronizar_dados_historicos example_yf 739044 []) =
      [739040, 739041, 739042, 739043]"
    by (simp add: sync_defs calendar_defs example_yf_def)
  then have "739040 \<in> set (fetched (sincronizar_dados_historicos example_yf 739044 []))"
    by simp
  with C7_weekday_only_fetch [of example_yf 739044 "[]"]
  have "weekday 739040 \<noteq> 5 \<and> weekday 739040 \<noteq> 6" by blast
  with f show ?thesis by simp
qed

section \<open>Reading the days of a range\<close>

lemma read_days_step:
  "current_date \<le> fim \<Longrightarrow>
     read_days dir current_date fim =
       (case day_rows dir current_date of None \<Rightarrow> [] | Some rows \<Rightarrow> [rows])
       @ read_days dir (current_date + 1) fim"
  by (simp add: read_days.simps [of dir current_date fim] day_rows_def read_sql_query_def
        split: option.splits db_file.splits)

lemma read_days_past: "\<not> current_date \<le> fim \<Longrightarrow> read_days dir current_date fim = []"
  by (simp add: read_days.simps [of dir current_date fim])

lemma read_days_eq: "read_days dir start fim = List.map_filter (day_rows dir) [start..fim]"
proof (induction "nat (fim + 1 - start)" arbitrary: start)
  case 0
  then have "\<not> start \<le> fim" by simp
  then show ?case by (simp add: read_days_past)
next
  case (Suc k)
  then have le: "start \<le> fim" and k: "k = nat (fim + 1 - (start + 1))" by linarith+
  from le have u: "[start..fim] = start # [start + 1..fim]" by (simp add: upto_rec1)
  show ?case
    by (simp add: read_days_step [OF le] Suc(1) [OF k] u split: option.splits)
qed


lemma map_filter_agree:
  "\<forall>x \<in> set xs. f x = g x \<Longrightarrow> List.map_filter f xs = List.map_filter g xs"
  by (induction xs) (simp_all split: option.splits)

lemma read_days_cong:
  assumes "\<And>d. start \<le> d \<Longrightarrow> d \<le> fim \<Longrightarrow> day_rows dir1 d = day_rows dir2 d"
  shows "read_days dir1 start fim = read_days dir2 start fim"
  using assms by (simp add: read_days_eq map_filter_agree)

lemma day_rows_corrupt_delete:
  "day_rows (AList.update p Corrupt dir) d = day_rows (AList.delete p dir) d"
  by (simp add: day_rows_def update_conv' delete_conv')

lemma buscar_dados_cong:
  "(\<And>d. start \<le> d \<Longrightarrow> d \<le> fim \<Longrightarrow> day_rows dir1 d = day_rows dir2 d) \<Longrightarrow>
     buscar_dados dir1 timeframe start fim = buscar_dados dir2 timeframe start fim"
  by (simp add: buscar_dados_def read_days_cong [of start fim dir1 dir2])


section \<open>Merging the days\<close>

lemma mask_keep_first:
  "map fst (filter (\<lambda>(b, dup). \<not> dup) (zip df (duplicated seen (map Datetime df))))
     = keep_first seen df"
  by (induction df arbitrary: seen) simp_all

lemma drop_duplicated_keep_first: "drop_duplicated df = keep_first [] df"
  by (simp add: drop_duplicated_def mask_keep_first)

lemma keep_first_keys: "Datetime ` set (keep_first seen df) = Datetime ` set df - set seen"
  by (induction df arbitrary: seen) auto

lemma keep_first_distinct: "distinct (map Datetime (keep_first seen df))"
proof (induction df arbitrary: seen)
  case Nil
  then show ?case by simp
next
  case (Cons b df)
  have "Datetime b \<notin> Datetime ` set (keep_first (Datetime b # seen) df)"
    unfolding keep_first_keys by simp
  with Cons [of "Datetime b # seen"] show ?case by simp
qed

lemma keep_first_find:
  "x \<in> set (keep_first seen df) \<Longrightarrow> find (\<lambda>y. Datetime y = Datetime x) df = Some x"
proof (induction df arbitrary: seen)
  case Nil
  then show ?case by simp
next
  case (Cons b df)
  show ?case
  proof (cases "Datetime b = Datetime x")
    case True
    have "Datetime x \<notin> Datetime ` set (keep_first (Datetime b # seen) df)"
      unfolding keep_first_keys using True by simp
    then have "x \<notin> set (keep_first (Datetime b # seen) df)"
      by blast
    with Cons.prems True show ?thesis by (simp split: if_splits)
  next
    case False
    with Cons.prems have "x \<in> set (keep_first (Datetime b # seen) df)"
      by (auto split: if_splits)
    from Cons.IH [OF this] False show ?thesis by simp
  qed
qed

lemma drop_duplicated_keys: "Datetime ` set (drop_duplicated df) = Datetime ` set df"
  by (simp add: drop_duplicated_keep_first keep_first_keys)

lemma drop_duplicated_distinct: "distinct (map Datetime (drop_duplicated df))"
  by (simp add: drop_duplicated_keep_first keep_first_distinct)

lemma drop_duplicated_first:
  "x \<in> set (drop_duplicated df) \<Longrightarrow> find (\<lambda>y. Datetime y = Datetime x) df = Some x"
  by (simp add: drop_duplicated_keep_first keep_first_find)

lemma merge_days_set: "set (merge_days dfs) = set (drop_duplicated (concat dfs))"
  by (simp add: merge_days_def sort_index_def)

lemma merge_days_sorted: "sorted_wrt (<) (map Datetime (merge_days dfs))"
proof -
  have "distinct (map Datetime (sort_key Datetime (drop_duplicated (concat dfs))))"
    using drop_duplicated_distinct [of "concat dfs"]
    by (metis distinct_map distinct_sort set_sort)
  then show ?thesis
    by (simp add: merge_days_def sort_index_def strict_sorted_iff)
qed

lemma merge_days_keys: "Datetime ` set (merge_days dfs) = Datetime ` set (concat dfs)"
  unfolding merge_days_set by (rule drop_duplicated_keys)

lemma merge_days_first:
  "x \<in> set (merge_days dfs) \<Longrightarrow> find (\<lambda>y. Datetime y = Datetime x) (concat dfs) = Some x"
  unfolding merge_days_set by (rule drop_duplicated_first)

lemma filter_key_distinct:
  "distinct (map f xs) \<Longrightarrow> z \<in> set xs \<Longrightarrow> filter (\<lambda>y. f y = f z) xs = [z]"
proof (induction xs)
  case Nil
  then show ?case by simp
next
  case (Cons a xs)
  show ?case
  proof (cases "a = z")
    case True
    with Cons.prems(1) have "\<forall>y \<in> set xs. f y \<noteq> f z" by (auto simp: image_iff)
    then have "filter (\<lambda>y. f y = f z) xs = []" by (simp add: filter_empty_conv)
    with True show ?thesis by simp
  next
    case False
    with Cons.prems have "z \<in> set xs" "f a \<noteq> f z" by force+
    with Cons show ?thesis by simp
  qed
qed

lemma find_Some_mem: "find P xs = Some x \<Longrightarrow> P x \<and> x \<in> set xs"
  by (induction xs) (auto split: if_splits)

lemma find_first_in_merge:
  assumes "find (\<lambda>y. Datetime y = t) (concat dfs) = Some x"
  shows "filter (\<lambda>y. Datetime y = t) (merge_days dfs) = [x]"
proof -
  from find_Some_mem [OF assms] have xt: "Datetime x = t" and "x \<in> set (concat dfs)"
    by simp_all
  then have "t \<in> Datetime ` set (merge_days dfs)"
    unfolding merge_days_keys by blast
  then obtain z where z: "z \<in> set (merge_days dfs)" "Datetime z = t" by auto
  from merge_days_first [OF z(1)] z(2) assms have zx: "z = x" by simp
  have d: "distinct (map Datetime (merge_days dfs))"
    using merge_days_sorted [of dfs] by (simp add: strict_sorted_iff)
  from filter_key_distinct [OF d z(1)] z(2) zx show ?thesis by simp
qed

section \<open>Resampling\<close>

lemma agg_max_Max: "xs \<noteq> [] \<Longrightarrow> agg_max xs = Some (Max (set xs))"
  by (cases xs) (simp_all only: agg_max_def Max.set_eq_fold list.case, simp)

lemma agg_min_Min: "xs \<noteq> [] \<Longrightarrow> agg_min xs = Some (Min (set xs))"
  by (cases xs) (simp_all only: agg_min_def Min.set_eq_fold list.case, simp)

lemma agg_nonempty:
  "cs \<noteq> [] \<Longrightarrow>
     agg lbl cs = \<lparr>bin_label = lbl, first_Open = Some (Open (hd cs)),
       max_High = Some (Max (set (map High cs))), min_Low = Some (Min (set (map Low cs))),
       last_Close = Some (Close (last cs)), sum_Volume = sum_list (map Volume cs)\<rparr>"
  by (cases cs) (simp_all add: agg_def agg_first_def agg_max_Max agg_min_Min agg_last_def last_map)

lemma agg_empty: "first_Open (agg lbl []) = None"
  by (simp add: agg_def agg_first_def)

lemma dropna_Cons:
  "dropna (agg lbl cs # rows) = (if cs = [] then [] else [ohlcv lbl cs]) @ dropna rows"
  by (cases "cs = []") (simp_all add: dropna_def agg_empty agg_nonempty ohlcv_def)

lemma dropna_Nil: "dropna [] = []"
  by (simp add: dropna_def)

lemma dropna_map_agg:
  "dropna (map (\<lambda>l. agg l (f l)) ls) = map (\<lambda>l. ohlcv l (f l)) (filter (\<lambda>l. f l \<noteq> []) ls)"
  by (induction ls) (simp_all add: dropna_Nil dropna_Cons)

lemma resample_agg_labels:
  "df \<noteq> [] \<Longrightarrow> resample_agg w df = map (\<lambda>l. agg l (bin_rows w l df)) (bin_labels w df)"
  by (simp add: resample_agg_def bin_labels_def Let_def comp_def)

lemma dropna_resample:
  "df \<noteq> [] \<Longrightarrow>
     dropna (resample_agg w df) =
       map (\<lambda>l. ohlcv l (bin_rows w l df)) (filter (\<lambda>l. bin_rows w l df \<noteq> []) (bin_labels w df))"
  by (simp add: resample_agg_labels dropna_map_agg)

lemma resample_empty: "dropna (resample_agg w []) = []"
  by (simp add: resample_agg_def dropna_def)

lemma bin_labels_sorted: "0 < w \<Longrightarrow> sorted_wrt (<) (bin_labels w df)"
  unfolding bin_labels_def sorted_wrt_map
  by (rule sorted_wrt_mono_rel [OF _ sorted_wrt_upt]) simp

lemma bin_labels_mem:
  "l \<in> set (bin_labels w df) \<longleftrightarrow>
     (\<exists>k \<le> nat ((Datetime (last df) - first_edge w df) div int w). l = first_edge w df + int k * int w)"
  unfolding bin_labels_def set_map set_upt image_iff
  by (metis Suc_eq_plus1 atLeastLessThan_iff le0 less_Suc_eq_le)

lemma first_edge_bounds:
  "0 < w \<Longrightarrow> first_edge w df \<le> Datetime (hd df) \<and> Datetime (hd df) < first_edge w df + int w"
proof -
  assume "0 < w"
  then have "0 \<le> (Datetime (hd df) - Datetime (hd df) div 1440 * 1440) mod int w"
    and "(Datetime (hd df) - Datetime (hd df) div 1440 * 1440) mod int w < int w"
    by simp_all
  then show ?thesis by (simp add: first_edge_def Let_def)
qed

lemma sorted_hd_last:
  "sorted (map f xs) \<Longrightarrow> x \<in> set xs \<Longrightarrow> f (hd xs) \<le> f x \<and> f x \<le> f (last xs)"
proof (induction xs)
  case Nil
  then show ?case by simp
next
  case (Cons a xs)
  then show ?case by (cases "xs = []") (auto simp: )
qed

lemma bin_of_row:
  assumes w: "0 < w" and s: "sorted (map Datetime df)" and b: "b \<in> set df"
  shows "\<exists>l \<in> set (bin_labels w df). l \<le> Datetime b \<and> Datetime b < l + int w"
proof -
  let ?E = "first_edge w df"
  from sorted_hd_last [OF s b] first_edge_bounds [OF w, of df]
  have lo: "?E \<le> Datetime b" and hi: "Datetime b \<le> Datetime (last df)" by simp_all
  let ?k = "nat ((Datetime b - ?E) div int w)"
  from lo w have k: "int ?k = (Datetime b - ?E) div int w"
    by (simp add: pos_imp_zdiv_nonneg_iff)
  from hi w have "(Datetime b - ?E) div int w \<le> (Datetime (last df) - ?E) div int w"
    by (simp add: zdiv_mono1)
  then have "?k \<le> nat ((Datetime (last df) - ?E) div int w)" by linarith
  then have mem: "?E + int ?k * int w \<in> set (bin_labels w df)"
    unfolding bin_labels_mem by blast
  have "(Datetime b - ?E) div int w * int w \<le> Datetime b - ?E"
    and "Datetime b - ?E < (Datetime b - ?E) div int w * int w + int w"
    using w div_mult_bounds [of "int w" "Datetime b - ?E"] by simp_all
  with k mem show ?thesis
    by (intro bexI [of _ "?E + int ?k * int w"]) simp_all
qed

lemma bin_rows_Nil: "bin_rows w l [] = []"
  by (simp add: bin_rows_def)

lemma buscar_dados_rows:
  assumes "buscar_dados dir (Tick w) start fim = Inr out"
  shows "out = map (\<lambda>l. ohlcv l (bin_rows w l (merge_days (read_days dir start fim))))
                 (filter (\<lambda>l. bin_rows w l (merge_days (read_days dir start fim)) \<noteq> [])
                    (bin_labels w (merge_days (read_days dir start fim))))"
proof (cases "merge_days (read_days dir start fim) = []")
  case True
  with assms have "out = []"
    by (auto simp: buscar_dados_def Let_def resample_empty split: if_splits)
  with True show ?thesis by (simp add: bin_rows_Nil)
next
  case False
  then have "read_days dir start fim \<noteq> []"
    by (auto simp: merge_days_def sort_index_def drop_duplicated_def)
  with assms have "out = dropna (resample_agg w (merge_days (read_days dir start fim)))"
    by (auto simp: buscar_dados_def Let_def split: if_splits)
  with False show ?thesis by (simp add: dropna_resample)
qed

lemma buscar_dados_row:
  assumes "buscar_dados dir (Tick w) start fim = Inr out" and "r \<in> set out"
  shows "bin_rows w (Datetime r) (merge_days (read_days dir start fim)) \<noteq> []
         \<and> r = ohlcv (Datetime r) (bin_rows w (Datetime r) (merge_days (read_days dir start fim)))
         \<and> Datetime r \<in> set (bin_labels w (merge_days (read_days dir start fim)))"
  using assms(2) unfolding buscar_dados_rows [OF assms(1)]
  by (auto simp: ohlcv_def)

lemma bin_rows_sorted:
  "sorted_wrt (<) (map Datetime df) \<Longrightarrow> sorted_wrt (<) (map Datetime (bin_rows w l df))"
  by (simp add: bin_rows_def sorted_wrt_map sorted_wrt_filter)

lemma spec_example:
  "buscar_dados [(get_db_path_for_date d, Table (spec_bars d))] (Tick 5) d d =
     Inr [\<lparr>Datetime = d * 1440 + 540, Open = 10, High = 10.6, Low = 9.8, Close = 10.4, Volume = 325\<rparr>]"
proof -
  have r: "read_days [(get_db_path_for_date d, Table (spec_bars d))] d d = [spec_bars d]"
    by (simp add: read_days.simps [of _ d d] read_days.simps [of _ "d + 1" d] read_sql_query_def)
  have m: "merge_days [spec_bars d] = spec_bars d"
    by (simp add: merge_days_def sort_index_def drop_duplicated_def spec_bars_def)
  have e: "first_edge 5 (spec_bars d) = d * 1440 + 540"
    by (simp add: first_edge_def spec_bars_def Let_def)
  show ?thesis
    apply (simp add: buscar_dados_def r m Let_def resample_agg_def e)
    apply (simp add: spec_bars_def bin_rows_def agg_def agg_first_def agg_max_def agg_min_def agg_last_def dropna_def)
    done
qed

lemma strict_sorted_key_unique:
  fixes f :: "'a \<Rightarrow> int"
  assumes "sorted_wrt (<) (map f xs)" and "sorted_wrt (<) (map f ys)" and "set xs = set ys"
  shows "xs = ys"
proof -
  from assms(1,2) have sx: "sorted (map f xs)" "distinct (map f xs)"
    and sy: "sorted (map f ys)" "distinct (map f ys)"
    by (simp_all add: strict_sorted_iff)
  from assms(3) have "set (map f xs) = set (map f ys)" by simp
  from sorted_distinct_set_unique [OF sx sy this] have m: "map f xs = map f ys" .
  from sx(2) assms(3) have "inj_on f (set xs \<union> set ys)" by (simp add: distinct_map)
  from inj_on_map_eq_map [OF this] m show ?thesis by simp
qed

lemma ohlcv_single: "Datetime z = l \<Longrightarrow> ohlcv l [z] = z"
  by (simp add: ohlcv_def)

lemma bin_rows_minute:
  assumes d: "distinct (map Datetime df)" and z: "z \<in> set df"
  shows "bin_rows 1 (Datetime z) df = [z]"
proof -
  have "bin_rows 1 (Datetime z) df = filter (\<lambda>y. Datetime y = Datetime z) df"
    unfolding bin_rows_def by (rule filter_cong) auto
  with filter_key_distinct [OF d z] show ?thesis by simp
qed

lemma bin_rows_mem: "b \<in> set (bin_rows w l df) \<longleftrightarrow> b \<in> set df \<and> l \<le> Datetime b \<and> Datetime b < l + int w"
  by (auto simp: bin_rows_def)

lemma minute_rows:
  assumes s: "sorted_wrt (<) (map Datetime df)"
  shows "map (\<lambda>l. ohlcv l (bin_rows 1 l df)) (filter (\<lambda>l. bin_rows 1 l df \<noteq> []) (bin_labels 1 df)) = df"
    (is "?out = df")
proof (rule strict_sorted_key_unique [where f = Datetime])
  have "map Datetime ?out = filter (\<lambda>l. bin_rows 1 l df \<noteq> []) (bin_labels 1 df)"
    by (simp add: comp_def ohlcv_def)
  then show "sorted_wrt (<) (map Datetime ?out)"
    using bin_labels_sorted [of 1 df] by (simp add: sorted_wrt_filter)
  show "sorted_wrt (<) (map Datetime df)" by (rule s)
  from s have d: "distinct (map Datetime df)" and so: "sorted (map Datetime df)"
    by (simp_all add: strict_sorted_iff)
  show "set ?out = set df"
  proof (intro equalityI subsetI)
    fix r assume "r \<in> set ?out"
    then obtain l where l: "bin_rows 1 l df \<noteq> []" and r: "r = ohlcv l (bin_rows 1 l df)"
      by auto
    from l obtain z where z: "z \<in> set (bin_rows 1 l df)" by (cases "bin_rows 1 l df") auto
    then have zd: "z \<in> set df" and zl: "Datetime z = l" by (auto simp: bin_rows_mem)
    from bin_rows_minute [OF d zd] zl r have "r = z" by (simp add: ohlcv_single)
    with zd show "r \<in> set df" by simp
  next
    fix b assume b: "b \<in> set df"
    from bin_of_row [OF _ so b, of 1] obtain l
      where l: "l \<in> set (bin_labels 1 df)" "l \<le> Datetime b" "Datetime b < l + 1" by auto
    then have lb: "l = Datetime b" by simp
    from bin_rows_minute [OF d b] have br: "bin_rows 1 (Datetime b) df = [b]" .
    with l(1) lb have "ohlcv (Datetime b) [b] \<in> set ?out" by force
    then show "b \<in> set ?out" by (simp add: ohlcv_single)
  qed
qed

lemma buscar_dados_minute:
  assumes "buscar_dados dir (Tick 1) start fim = Inr out"
  shows "out = merge_days (read_days dir start fim)"
  using buscar_dados_rows [OF assms] minute_rows [OF merge_days_sorted] by simp

lemma buscar_dados_minute_Inr:
  "buscar_dados dir (Tick 1) start fim = Inr (merge_days (read_days dir start fim))"
proof (cases "read_days dir start fim = []")
  case True
  then show ?thesis by (simp add: buscar_dados_def merge_days_def sort_index_def drop_duplicated_def)
next
  case False
  then obtain out where "buscar_dados dir (Tick 1) start fim = Inr out"
    by (simp add: buscar_dados_def Let_def)
  with buscar_dados_minute [OF this] show ?thesis by simp
qed

lemma first_edge_aligned:
  assumes "int w dvd 1440"
  shows "first_edge w df mod int w = 0"
proof -
  define t where "t = Datetime (hd df)"
  define k where "k = t div 1440 * 1440"
  from assms have dk: "int w dvd k" by (simp add: k_def)
  have dm: "(t - k) div int w * int w + (t - k) mod int w = t - k"
    by (rule div_mult_mod_eq)
  have "first_edge w df = t - (t - k) mod int w"
    by (simp add: first_edge_def Let_def t_def k_def)
  with dm have "first_edge w df = k + (t - k) div int w * int w"
    by linarith
  with dk have "int w dvd first_edge w df" by simp
  then show ?thesis by (simp add: mod_eq_0_iff_dvd)
qed

lemma bin_labels_aligned:
  assumes "int w dvd 1440" and "l \<in> set (bin_labels w df)"
  shows "l mod int w = 0"
  using assms(2) first_edge_aligned [OF assms(1), of df]
  by (auto simp: bin_labels_mem)

lemma aligned_bin:
  assumes w: "0 < (w::int)" and "l mod w = 0" and "l \<le> t" and "t < l + w"
  shows "l = t div w * w"
proof -
  from assms(2) have "w dvd l" by (simp add: mod_eq_0_iff_dvd)
  then obtain q where q: "l = w * q" by (auto elim: dvdE)
  have "t = w * q + (t - l)" using q by simp
  from int_div_pos_eq [OF this] assms(3,4) have "t div w = q" by simp
  with q show ?thesis by simp
qed

lemmas query_defs = buscar_dados_def read_days.simps read_sql_query_def merge_days_def
  sort_index_def drop_duplicated_def resample_agg_def first_edge_def bin_rows_def agg_def
  agg_first_def agg_max_def agg_min_def agg_last_def dropna_def get_db_path_for_date_def

section \<open>The bars of a query\<close>

lemma upt_0_numeral: "[0..<numeral n] = 0 # [Suc 0..<numeral n]"
  by (simp add: upt_conv_Cons)

lemma upt_1_numeral:
  "[Suc 0..<numeral n] = (if Suc 0 < numeral n then Suc 0 # [2..<numeral n] else [])"
  using upt_rec [of "Suc 0" "numeral n"] by (simp add: numeral_2_eq_2)

lemma read_days_mem:
  "rows \<in> set (read_days dir start fim) \<longleftrightarrow> (\<exists>d \<in> {start..fim}. day_rows dir d = Some rows)"
proof -
  have "set (List.map_filter f xs) = {y. \<exists>x \<in> set xs. f x = Some y}" for f :: "int \<Rightarrow> bar list option" and xs
    by (induction xs) (auto simp: List.map_filter_simps split: option.splits)
  then show ?thesis by (simp add: read_days_eq)
qed

lemma merge_days_Nil:
  assumes "concat dfs = []"
  shows "merge_days dfs = []"
  unfolding merge_days_def assms by (simp add: sort_index_def drop_duplicated_def)

lemma buscar_dados_returns:
  "0 < w \<Longrightarrow> buscar_dados dir (Tick w) start fim =
     Inr (dropna (resample_agg w (merge_days (read_days dir start fim))))"
  by (simp add: buscar_dados_def Let_def merge_days_Nil resample_empty)

lemma merged_keys_of_days:
  "Datetime ` set (merge_days (read_days dir start fim)) =
     (\<Union>d \<in> {start..fim}. case day_rows dir d of None \<Rightarrow> {} | Some rows \<Rightarrow> Datetime ` set rows)"
  (is "?L = ?R")
proof -
  have "k \<in> Datetime ` set (concat (read_days dir start fim)) \<longleftrightarrow> k \<in> ?R" for k
  proof
    assume "k \<in> Datetime ` set (concat (read_days dir start fim))"
    then obtain b rows where b: "k = Datetime b" "b \<in> set rows"
      and "rows \<in> set (read_days dir start fim)"
      by auto
    then obtain d where d: "d \<in> {start..fim}" "day_rows dir d = Some rows"
      unfolding read_days_mem by blast
    from b d(2) have "k \<in> (case day_rows dir d of None \<Rightarrow> {} | Some rows \<Rightarrow> Datetime ` set rows)"
      by simp
    with d(1) show "k \<in> ?R" by blast
  next
    assume "k \<in> ?R"
    then obtain d where d: "d \<in> {start..fim}"
      and k: "k \<in> (case day_rows dir d of None \<Rightarrow> {} | Some rows \<Rightarrow> Datetime ` set rows)"
      by blast
    from k obtain rows where r: "day_rows dir d = Some rows" and k': "k \<in> Datetime ` set rows"
      by (cases "day_rows dir d") simp_all
    from d r have "rows \<in> set (read_days dir start fim)"
      unfolding read_days_mem by blast
    with k' show "k \<in> Datetime ` set (concat (read_days dir start fim))" by auto
  qed
  then have "Datetime ` set (concat (read_days dir start fim)) = ?R" by blast
  then show ?thesis by (simp only: merge_days_keys)
qed

lemma bin_rows_filter:
  "bin_rows w l df = filter (\<lambda>b. l \<le> Datetime b \<and> Datetime b < l + int w) df"
  by (simp add: bin_rows_def)

lemma bin_labels_apart:
  "sorted_wrt (\<lambda>a b. a + int w \<le> b) (bin_labels w df)"
proof -
  have "int k * int w + int w \<le> int k' * int w" if "k < k'" for k k' :: nat
  proof -
    from that have "int k + 1 \<le> int k'" by simp
    then have "(int k + 1) * int w \<le> int k' * int w" by (intro mult_right_mono) simp_all
    then show ?thesis by (simp add: algebra_simps)
  qed
  then show ?thesis
    unfolding bin_labels_def sorted_wrt_map
    by (intro sorted_wrt_mono_rel [OF _ sorted_wrt_upt]) simp
qed

lemma buscar_dados_apart:
  assumes "buscar_dados dir (Tick w) start fim = Inr out"
  shows "sorted_wrt (\<lambda>a b. Datetime a + int w \<le> Datetime b) out"
proof -
  let ?df = "merge_days (read_days dir start fim)"
  have "sorted_wrt (\<lambda>a b. a + int w \<le> b) (filter (\<lambda>l. bin_rows w l ?df \<noteq> []) (bin_labels w ?df))"
    by (rule sorted_wrt_filter [OF bin_labels_apart])
  then show ?thesis
    unfolding buscar_dados_rows [OF assms] sorted_wrt_map by (simp add: ohlcv_def)
qed

lemma buscar_dados_covers:
  assumes a: "buscar_dados dir (Tick w) start fim = Inr out"
    and b: "b \<in> set (merge_days (read_days dir start fim))"
  shows "\<exists>r \<in> set out. Datetime r \<le> Datetime b \<and> Datetime b < Datetime r + int w"
proof -
  let ?df = "merge_days (read_days dir start fim)"
  from b have "read_days dir start fim \<noteq> []"
    by (auto simp: merge_days_def sort_index_def drop_duplicated_def)
  with a have w: "0 < w" by (auto simp: buscar_dados_def Let_def split: if_splits)
  have so: "sorted (map Datetime ?df)"
    using merge_days_sorted [of "read_days dir start fim"] by (simp add: strict_sorted_iff)
  from bin_of_row [OF w so b] obtain l
    where l: "l \<in> set (bin_labels w ?df)" "l \<le> Datetime b" "Datetime b < l + int w" by auto
  from b l(2,3) have "bin_rows w l ?df \<noteq> []"
    by (auto simp: bin_rows_def filter_empty_conv)
  with l(1) have "ohlcv l (bin_rows w l ?df) \<in> set out"
    unfolding buscar_dados_rows [OF a] by simp
  moreover have "Datetime (ohlcv l (bin_rows w l ?df)) = l" by (simp add: ohlcv_def)
  ultimately show ?thesis using l(2,3) by metis
qed

section \<open>Aggregation correctness\<close>

text \<open>
  Claim C1. A query with a timeframe of \<open>w\<close> minutes, \<open>w\<close> positive, returns. For every bar
  \<open>r\<close> it returns, let \<open>cs\<close> be the contributing rows: the rows \<open>b\<close> of the merged minute
  series with \<open>Datetime r \<le> Datetime b < Datetime r + w\<close>, in the order of the series. Then
  \<open>cs\<close> is not empty and in strictly ascending time order, and \<open>r\<close> has the open of the first
  row of \<open>cs\<close>, the maximum of the highs of \<open>cs\<close>, the minimum of its lows, the close of its
  last row and the sum of its volumes. Every row of the merged series contributes to a
  returned bar, and the buckets of two returned bars do not overlap: the labels ascend
  in steps of at least \<open>w\<close>. In particular the five minute bars of the specification,
  stored for any day \<open>d\<close> and resampled at five minutes, give exactly one bar: open 10,
  high 10.6, low 9.8, close 10.4, volume 325.
\<close>

theorem C1_aggregation:
  "(\<forall>out r. buscar_dados dir (Tick w) start fim = Inr out \<longrightarrow> r \<in> set out \<longrightarrow>
      (let cs = filter (\<lambda>b. Datetime r \<le> Datetime b \<and> Datetime b < Datetime r + int w)
                  (merge_days (read_days dir start fim)) in
         cs \<noteq> [] \<and> sorted_wrt (<) (map Datetime cs)
         \<and> Open r = Open (hd cs)
         \<and> High r = Max (set (map High cs))
         \<and> Low r = Min (set (map Low cs))
         \<and> Close r = Close (last cs)
         \<and> Volume r = sum_list (map Volume cs)))
   \<and> (\<forall>out b. buscar_dados dir (Tick w) start fim = Inr out \<longrightarrow>
         b \<in> set (merge_days (read_days dir start fim)) \<longrightarrow>
         (\<exists>r \<in> set out. Datetime r \<le> Datetime b \<and> Datetime b < Datetime r + int w))
   \<and> (\<forall>out. buscar_dados dir (Tick w) start fim = Inr out \<longrightarrow>
         sorted_wrt (\<lambda>a b. Datetime a + int w \<le> Datetime b) out)
   \<and> (0 < w \<longrightarrow> (\<exists>out. buscar_dados dir (Tick w) start fim = Inr out))
   \<and> buscar_dados [(get_db_path_for_date d, Table (spec_bars d))] (Tick 5) d d =
       Inr [\<lparr>Datetime = d * 1440 + 540, Open = 10, High = 10.6, Low = 9.8, Close = 10.4,
             Volume = 325\<rparr>]"
proof (intro conjI allI impI)
  fix out r
  assume a: "buscar_dados dir (Tick w) start fim = Inr out" and r: "r \<in> set out"
  let ?cs = "filter (\<lambda>b. Datetime r \<le> Datetime b \<and> Datetime b < Datetime r + int w)
               (merge_days (read_days dir start fim))"
  from buscar_dados_row [OF a r] have ne: "?cs \<noteq> []" and eq: "r = ohlcv (Datetime r) ?cs"
    by (simp_all add: bin_rows_filter)
  have so: "sorted_wrt (<) (map Datetime ?cs)"
    using bin_rows_sorted [OF merge_days_sorted, of w "Datetime r" "read_days dir start fim"]
    by (simp add: bin_rows_filter)
  have f: "Open r = Open (ohlcv (Datetime r) ?cs)" "High r = High (ohlcv (Datetime r) ?cs)"
    "Low r = Low (ohlcv (Datetime r) ?cs)" "Close r = Close (ohlcv (Datetime r) ?cs)"
    "Volume r = Volume (ohlcv (Datetime r) ?cs)"
    using eq by simp_all
  show "let cs = ?cs in
         cs \<noteq> [] \<and> sorted_wrt (<) (map Datetime cs)
         \<and> Open r = Open (hd cs)
         \<and> High r = Max (set (map High cs))
         \<and> Low r = Min (set (map Low cs))
         \<and> Close r = Close (last cs)
         \<and> Volume r = sum_list (map Volume cs)"
    unfolding Let_def using ne so f by (simp add: ohlcv_def)
next
  fix out b
  assume "buscar_dados dir (Tick w) start fim = Inr out"
    and "b \<in> set (merge_days (read_days dir start fim))"
  then show "\<exists>r \<in> set out. Datetime r \<le> Datetime b \<and> Datetime b < Datetime r + int w"
    by (rule buscar_dados_covers)
next
  fix out
  assume "buscar_dados dir (Tick w) start fim = Inr out"
  then show "sorted_wrt (\<lambda>a b. Datetime a + int w \<le> Datetime b) out"
    by (rule buscar_dados_apart)
next
  assume "0 < w"
  from buscar_dados_returns [OF this]
  show "\<exists>out. buscar_dados dir (Tick w) start fim = Inr out" by blast
next
  show "buscar_dados [(get_db_path_for_date d, Table (spec_bars d))] (Tick 5) d d =
       Inr [\<lparr>Datetime = d * 1440 + 540, Open = 10, High = 10.6, Low = 9.8, Close = 10.4,
             Volume = 325\<rparr>]"
    by (rule spec_example)
qed

text \<open>
  The bars of the specification on 2024-06-07 at two minutes: three buckets, starting
  09:00, 09:02 and 09:04. The contributing rows of the second one are the rows of
  09:02 and 09:03; its high 10.6 is the maximum of their highs and its volume 135 the
  sum of their volumes.
\<close>

theorem C1_aggregation_witness:
  "buscar_dados [(''2024-06-07.sqlite3'', Table (spec_bars 739044))] (Tick 2) 739044 739044 =
     Inr [\<lparr>Datetime = 739044 * 1440 + 540, Open = 10, High = 10.5, Low = 9.8, Close = 10.1,
           Volume = 150\<rparr>,
          \<lparr>Datetime = 739044 * 1440 + 542, Open = 10.1, High = 10.6, Low = 10.1, Close = 10.5,
           Volume = 135\<rparr>,
          \<lparr>Datetime = 739044 * 1440 + 544, Open = 10.5, High = 10.5, Low = 10.3, Close = 10.4,
           Volume = 40\<rparr>]
   \<and> filter (\<lambda>b. 739044 * 1440 + 542 \<le> Datetime b \<and> Datetime b < 739044 * 1440 + 542 + 2)
        (merge_days (read_days [(''2024-06-07.sqlite3'', Table (spec_bars 739044))] 739044 739044))
       = [spec_bars 739044 ! 2, spec_bars 739044 ! 3]
   \<and> (10.6::real) = Max (set (map High [spec_bars 739044 ! 2, spec_bars 739044 ! 3]))
   \<and> (135::int) = sum_list (map Volume [spec_bars 739044 ! 2, spec_bars 739044 ! 3])"
proof -
  let ?D = "[(''2024-06-07.sqlite3'', Table (spec_bars 739044))]"
  let ?r = "\<lparr>Datetime = 739044 * 1440 + 542, Open = 10.1, High = 10.6, Low = 10.1, Close = 10.5,
           Volume = 135\<rparr>"
  have e: "buscar_dados ?D (Tick 2) 739044 739044 =
     Inr [\<lparr>Datetime = 739044 * 1440 + 540, Open = 10, High = 10.5, Low = 9.8, Close = 10.1,
           Volume = 150\<rparr>, ?r,
          \<lparr>Datetime = 739044 * 1440 + 544, Open = 10.5, High = 10.5, Low = 10.3, Close = 10.4,
           Volume = 40\<rparr>]"
    by (simp add: query_defs calendar_defs spec_bars_def upt_0_numeral upt_1_numeral)
  have c: "filter (\<lambda>b. 739044 * 1440 + 542 \<le> Datetime b \<and> Datetime b < 739044 * 1440 + 542 + 2)
        (merge_days (read_days ?D 739044 739044))
       = [spec_bars 739044 ! 2, spec_bars 739044 ! 3]"
    by (simp add: query_defs calendar_defs spec_bars_def)
  from C1_aggregation [of ?D 2 739044 739044 739044] e
  have "let cs = filter (\<lambda>b. Datetime ?r \<le> Datetime b \<and> Datetime b < Datetime ?r + int 2)
                  (merge_days (read_days ?D 739044 739044)) in
         High ?r = Max (set (map High cs)) \<and> Volume ?r = sum_list (map Volume cs)"
    by (simp add: Let_def)
  with c have "(10.6::real) = Max (set (map High [spec_bars 739044 ! 2, spec_bars 739044 ! 3]))
     \<and> (135::int) = sum_list (map Volume [spec_bars 739044 ! 2, spec_bars 739044 ! 3])"
    by (simp add: Let_def)
  with e c show ?thesis by blast
qed

section \<open>Empty-range behaviour\<close>




section \<open>Per-day read failures\<close>

text \<open>
  Claim C9. Reading a day never raises: the list of frames the query merges holds, in
  date order, the rows of exactly the days of the range whose store exists and can be
  read. A store that cannot be read counts like a missing one, so the query over a cache
  where a file is corrupt returns what it returns over the cache without that file; and
  the query never ends in a database error. Every other day still contributes: the
  timestamps of the merged series are exactly the timestamps of the rows of the readable
  days of the range, and at every positive width \<open>w\<close> the query returns bars such that
  every row of every readable day of the range lies in the bucket of a returned bar.
\<close>

theorem C9_read_failure_isolated:
  "read_days dir start fim = List.map_filter (day_rows dir) [start..fim]
   \<and> buscar_dados (AList.update (get_db_path_for_date d) Corrupt dir) timeframe start fim
       = buscar_dados (AList.delete (get_db_path_for_date d) dir) timeframe start fim
   \<and> buscar_dados dir timeframe start fim \<noteq> Inl DatabaseError
   \<and> Datetime ` set (merge_days (read_days dir start fim)) =
       (\<Union>d \<in> {start..fim}. case day_rows dir d of None \<Rightarrow> {} | Some rows \<Rightarrow> Datetime ` set rows)
   \<and> (0 < w \<longrightarrow>
        (\<exists>out. buscar_dados dir (Tick w) start fim = Inr out
           \<and> (\<forall>d' \<in> {start..fim}. \<forall>rows. day_rows dir d' = Some rows \<longrightarrow>
                 (\<forall>b \<in> set rows. \<exists>r \<in> set out.
                    Datetime r \<le> Datetime b \<and> Datetime b < Datetime r + int w))))"
proof (intro conjI impI)
  show "read_days dir start fim = List.map_filter (day_rows dir) [start..fim]"
    by (rule read_days_eq)
  show "buscar_dados (AList.update (get_db_path_for_date d) Corrupt dir) timeframe start fim
       = buscar_dados (AList.delete (get_db_path_for_date d) dir) timeframe start fim"
    by (rule buscar_dados_cong) (simp add: day_rows_corrupt_delete)
  show "buscar_dados dir timeframe start fim \<noteq> Inl DatabaseError"
    by (simp add: buscar_dados_def Let_def split: timeframe.splits)
  show "Datetime ` set (merge_days (read_days dir start fim)) =
       (\<Union>d \<in> {start..fim}. case day_rows dir d of None \<Rightarrow> {} | Some rows \<Rightarrow> Datetime ` set rows)"
    by (rule merged_keys_of_days)
next
  assume w: "0 < w"
  let ?out = "dropna (resample_agg w (merge_days (read_days dir start fim)))"
  note a = buscar_dados_returns [OF w, of dir start fim]
  have "\<exists>r \<in> set ?out. Datetime r \<le> Datetime b \<and> Datetime b < Datetime r + int w"
    if d: "d' \<in> {start..fim}" and r: "day_rows dir d' = Some rows" and b: "b \<in> set rows"
    for d' rows b
  proof -
    from d r b have "Datetime b \<in> (\<Union>d \<in> {start..fim}.
        case day_rows dir d of None \<Rightarrow> {} | Some rows \<Rightarrow> Datetime ` set rows)"
      by force
    then obtain z where z: "z \<in> set (merge_days (read_days dir start fim))"
      "Datetime z = Datetime b"
      unfolding merged_keys_of_days [symmetric] by auto
    from buscar_dados_covers [OF a z(1)] z(2) show ?thesis by simp
  qed
  with a show "\<exists>out. buscar_dados dir (Tick w) start fim = Inr out
           \<and> (\<forall>d' \<in> {start..fim}. \<forall>rows. day_rows dir d' = Some rows \<longrightarrow>
                 (\<forall>b \<in> set rows. \<exists>r \<in> set out.
                    Datetime r \<le> Datetime b \<and> Datetime b < Datetime r + int w))"
    by blast
qed

text \<open>
  The store of 2024-06-05 of the example cache is corrupt. Over 2024-06-05 to
  2024-06-06 the query at five minutes returns the bar of the row of 2024-06-06, the
  same as over the cache without the corrupt file, and that row lies in the bucket of
  the returned bar.
\<close>

theorem C9_read_failure_isolated_witness:
  "map_of example_dir (get_db_path_for_date 739042) = Some Corrupt
   \<and> day_rows example_dir 739043 = Some [example_bar (739043 * 1440 + 600)]
   \<and> buscar_dados example_dir (Tick 5) 739042 739043 = Inr [example_bar (739043 * 1440 + 600)]
   \<and> buscar_dados (AList.delete (get_db_path_for_date 739042) example_dir) (Tick 5) 739042 739043
       = Inr [example_bar (739043 * 1440 + 600)]
   \<and> (\<exists>r \<in> set [example_bar (739043 * 1440 + 600)].
         Datetime r \<le> 739043 * 1440 + 600 \<and> 739043 * 1440 + 600 < Datetime r + 5)"
proof -
  have m: "map_of example_dir (get_db_path_for_date 739042) = Some Corrupt"
    by (simp add: example_dir_def get_db_path_for_date_def calendar_defs)
  have b: "day_rows example_dir 739043 = Some [example_bar (739043 * 1440 + 600)]"
    by (simp add: day_rows_def example_dir_def get_db_path_for_date_def calendar_defs)
  have e: "buscar_dados example_dir (Tick 5) 739042 739043 = Inr [example_bar (739043 * 1440 + 600)]"
    by (simp add: query_defs calendar_defs example_dir_def example_bar_def)
  note t = C9_read_failure_isolated [of example_dir 739042 739043 739042 "Tick 5" 5]
  from update_triv [OF m] have u: "AList.update (get_db_path_for_date 739042) Corrupt example_dir = example_dir" .
  from t u e have dl: "buscar_dados (AList.delete (get_db_path_for_date 739042) example_dir) (Tick 5) 739042 739043
       = Inr [example_bar (739043 * 1440 + 600)]"
    by simp
  from t e have "\<forall>d' \<in> {739042..739043}. \<forall>rows. day_rows example_dir d' = Some rows \<longrightarrow>
      (\<forall>b \<in> set rows. \<exists>r \<in> set [example_bar (739043 * 1440 + 600)].
         Datetime r \<le> Datetime b \<and> Datetime b < Datetime r + int 5)"
    by simp
  from this [rule_format, of 739043, OF _ b, of "example_bar (739043 * 1440 + 600)"]
  have "\<exists>r \<in> set [example_bar (739043 * 1440 + 600)].
         Datetime r \<le> 739043 * 1440 + 600 \<and> 739043 * 1440 + 600 < Datetime r + 5"
    by (simp add: example_bar_def)
  with m b e dl show ?thesis by blast
qed

section \<open>Merge determinism\<close>

text \<open>
  Claim C2. The merged minute series is the concatenation of the per-day reads, in date
  order, without the rows whose timestamp occurred earlier in it, sorted by timestamp:
  its timestamps are strictly ascending, they are the timestamps of the reads, and each
  row is the first row of the concatenation with its timestamp. At the one-minute
  timeframe the query returns exactly this series, so for a timestamp that several
  stores hold, the output has exactly one bar, the one of the store loaded first.
\<close>

theorem C2_merge:
  "merge_days (read_days dir start fim) = sort_key Datetime (keep_first [] (concat (read_days dir start fim)))
   \<and> sorted_wrt (<) (map Datetime (merge_days (read_days dir start fim)))
   \<and> Datetime ` set (merge_days (read_days dir start fim)) = Datetime ` set (concat (read_days dir start fim))
   \<and> (\<forall>x \<in> set (merge_days (read_days dir start fim)).
         find (\<lambda>y. Datetime y = Datetime x) (concat (read_days dir start fim)) = Some x)
   \<and> buscar_dados dir (Tick 1) start fim = Inr (merge_days (read_days dir start fim))
   \<and> (\<forall>t x. find (\<lambda>y. Datetime y = t) (concat (read_days dir start fim)) = Some x \<longrightarrow>
         (\<exists>out. buscar_dados dir (Tick 1) start fim = Inr out \<and> filter (\<lambda>y. Datetime y = t) out = [x]))"
proof (intro conjI ballI allI impI)
  show "merge_days (read_days dir start fim) =
      sort_key Datetime (keep_first [] (concat (read_days dir start fim)))"
    by (simp add: merge_days_def sort_index_def drop_duplicated_keep_first)
  show "sorted_wrt (<) (map Datetime (merge_days (read_days dir start fim)))"
    by (rule merge_days_sorted)
  show "Datetime ` set (merge_days (read_days dir start fim)) =
      Datetime ` set (concat (read_days dir start fim))"
    by (rule merge_days_keys)
  show "buscar_dados dir (Tick 1) start fim = Inr (merge_days (read_days dir start fim))"
    by (rule buscar_dados_minute_Inr)
next
  fix x assume "x \<in> set (merge_days (read_days dir start fim))"
  then show "find (\<lambda>y. Datetime y = Datetime x) (concat (read_days dir start fim)) = Some x"
    by (rule merge_days_first)
next
  fix t x assume "find (\<lambda>y. Datetime y = t) (concat (read_days dir start fim)) = Some x"
  from find_first_in_merge [OF this] buscar_dados_minute_Inr [of dir start fim]
  show "\<exists>out. buscar_dados dir (Tick 1) start fim = Inr out \<and> filter (\<lambda>y. Datetime y = t) out = [x]"
    by simp
qed

text \<open>
  In the overlapping example cache the row for 10:00 of 2024-06-06 comes from the store
  of 2024-06-06, which is read first, and the other row for that minute is dropped.
\<close>

lemma overlap_reads:
  "read_days overlap_dir 739043 739044 =
     [[example_bar (739043 * 1440 + 600)],
      [\<lparr>Datetime = 739043 * 1440 + 600, Open = 20, High = 21, Low = 19, Close = 20, Volume = 7\<rparr>,
       example_bar (739044 * 1440 + 600)]]"
  by (simp add: read_days.simps read_sql_query_def get_db_path_for_date_def overlap_dir_def calendar_defs)

theorem C2_merge_witness:
  "find (\<lambda>y. Datetime y = 739043 * 1440 + 600) (concat (read_days overlap_dir 739043 739044))
     = Some (example_bar (739043 * 1440 + 600))
   \<and> buscar_dados overlap_dir (Tick 1) 739043 739044
     = Inr [example_bar (739043 * 1440 + 600), example_bar (739044 * 1440 + 600)]
   \<and> filter (\<lambda>y. Datetime y = 739043 * 1440 + 600)
        [example_bar (739043 * 1440 + 600), example_bar (739044 * 1440 + 600)]
     = [example_bar (739043 * 1440 + 600)]"
proof -
  have f: "find (\<lambda>y. Datetime y = 739043 * 1440 + 600) (concat (read_days overlap_dir 739043 739044))
     = Some (example_bar (739043 * 1440 + 600))"
    by (simp add: overlap_reads example_bar_def)
  have m: "merge_days (read_days overlap_dir 739043 739044)
     = [example_bar (739043 * 1440 + 600), example_bar (739044 * 1440 + 600)]"
    by (simp add: overlap_reads merge_days_def sort_index_def drop_duplicated_def example_bar_def)
  note t = C2_merge [of overlap_dir 739043 739044]
  from t m have b: "buscar_dados overlap_dir (Tick 1) 739043 739044
     = Inr [example_bar (739043 * 1440 + 600), example_bar (739044 * 1440 + 600)]"
    by simp
  from t f b have "filter (\<lambda>y. Datetime y = 739043 * 1440 + 600)
        [example_bar (739043 * 1440 + 600), example_bar (739044 * 1440 + 600)]
     = [example_bar (739043 * 1440 + 600)]"
    by (metis sum.inject(2))
  with f b show ?thesis by simp
qed

section \<open>Bucket alignment\<close>

lemma same_reads:
  "read_days dir s1 e1 = read_days dir s2 e2 \<Longrightarrow>
     buscar_dados dir timeframe s1 e1 = buscar_dados dir timeframe s2 e2"
  by (simp add: buscar_dados_def)

text \<open>
  Claim C4 as stated fails. The bin edges are counted from midnight of the day of the
  first row of the merged series, so for a width that does not divide a day they move
  with the first day that the range reads. At seven minutes the bar of 10:00 on
  2024-06-07 falls in the bucket starting 09:57 when the range starts on 2024-06-06 and
  in the bucket starting 09:55 when the range is 2024-06-07 alone, although both ranges
  contain the bar's day.
\<close>

theorem C4_counterexample:
  "buscar_dados two_day_dir (Tick 7) 739043 739044 =
     Inr [example_bar (739043 * 1440 + 600)\<lparr>Datetime := 739043 * 1440 + 595\<rparr>,
          example_bar (739044 * 1440 + 600)\<lparr>Datetime := 739044 * 1440 + 597\<rparr>]
   \<and> buscar_dados two_day_dir (Tick 7) 739044 739044 =
     Inr [example_bar (739044 * 1440 + 600)\<lparr>Datetime := 739044 * 1440 + 595\<rparr>]"
  by (simp add: query_defs two_day_dir_def calendar_defs example_bar_def upt_0_numeral
        upt_1_numeral)

text \<open>
  Claim C4, amended. Two queries with the same timeframe whose ranges read the same
  stores return the same result. When the width \<open>w\<close> of the timeframe divides a day
  (1440 minutes), the bucket of a bar depends on its timestamp \<open>t\<close> and on \<open>w\<close> alone:
  every returned bar is labelled by a multiple of \<open>w\<close> counted from midnight and
  aggregates the merged rows with \<open>t div w * w\<close> equal to its label, and every merged row
  is aggregated into the bar labelled \<open>t div w * w\<close>, whatever the queried range.
\<close>

theorem C4_bucket_alignment:
  "(read_days dir s1 e1 = read_days dir s2 e2 \<longrightarrow>
      buscar_dados dir timeframe s1 e1 = buscar_dados dir timeframe s2 e2)
   \<and> (int w dvd 1440 \<longrightarrow> buscar_dados dir (Tick w) start fim = Inr out \<longrightarrow>
        (\<forall>r \<in> set out.
           Datetime r mod int w = 0
           \<and> r = ohlcv (Datetime r)
                 (filter (\<lambda>b. Datetime b div int w * int w = Datetime r)
                    (merge_days (read_days dir start fim))))
        \<and> (\<forall>b \<in> set (merge_days (read_days dir start fim)).
             \<exists>r \<in> set out. Datetime r = Datetime b div int w * int w))"
proof (intro conjI impI ballI)
  assume "read_days dir s1 e1 = read_days dir s2 e2"
  then show "buscar_dados dir timeframe s1 e1 = buscar_dados dir timeframe s2 e2"
    by (rule same_reads)
next
  fix r
  assume w: "int w dvd 1440" and a: "buscar_dados dir (Tick w) start fim = Inr out"
    and r: "r \<in> set out"
  from w have wp: "0 < int w" by (cases "w = 0") simp_all
  let ?df = "merge_days (read_days dir start fim)"
  from buscar_dados_row [OF a r]
  have eq: "r = ohlcv (Datetime r) (bin_rows w (Datetime r) ?df)"
    and l: "Datetime r \<in> set (bin_labels w ?df)" by simp_all
  from bin_labels_aligned [OF w l] show al: "Datetime r mod int w = 0" .
  have "bin_rows w (Datetime r) ?df =
      filter (\<lambda>b. Datetime b div int w * int w = Datetime r) ?df"
    unfolding bin_rows_def
  proof (rule filter_cong [OF refl])
    fix b
    show "(Datetime r \<le> Datetime b \<and> Datetime b < Datetime r + int w) =
        (Datetime b div int w * int w = Datetime r)"
      using aligned_bin [OF wp al, of "Datetime b"] div_mult_bounds [OF wp, of "Datetime b"]
      by auto
  qed
  with eq show "r = ohlcv (Datetime r)
      (filter (\<lambda>b. Datetime b div int w * int w = Datetime r) ?df)"
    by simp
next
  fix b
  assume w: "int w dvd 1440" and a: "buscar_dados dir (Tick w) start fim = Inr out"
    and b: "b \<in> set (merge_days (read_days dir start fim))"
  from w have wp: "0 < int w" by (cases "w = 0") simp_all
  then have wn: "0 < w" by simp
  let ?df = "merge_days (read_days dir start fim)"
  have so: "sorted (map Datetime ?df)"
    using merge_days_sorted [of "read_days dir start fim"] by (simp add: strict_sorted_iff)
  from bin_of_row [OF wn so b] obtain l
    where l: "l \<in> set (bin_labels w ?df)" "l \<le> Datetime b" "Datetime b < l + int w" by auto
  from aligned_bin [OF wp bin_labels_aligned [OF w l(1)] l(2,3)]
  have le: "l = Datetime b div int w * int w" .
  from b l(2,3) have "bin_rows w l ?df \<noteq> []"
    by (auto simp: bin_rows_def filter_empty_conv)
  with l(1) have "ohlcv l (bin_rows w l ?df) \<in> set out"
    unfolding buscar_dados_rows [OF a] by simp
  moreover have "Datetime (ohlcv l (bin_rows w l ?df)) = l" by (simp add: ohlcv_def)
  ultimately show "\<exists>r \<in> set out. Datetime r = Datetime b div int w * int w"
    using le by metis
qed

text \<open>At five minutes both bars of the two-day cache keep the label 10:00.\<close>

theorem C4_bucket_alignment_witness:
  "(5::int) dvd 1440
   \<and> buscar_dados two_day_dir (Tick 5) 739043 739044 =
       Inr [example_bar (739043 * 1440 + 600), example_bar (739044 * 1440 + 600)]
   \<and> Datetime (example_bar (739044 * 1440 + 600)) mod 5 = 0"
proof -
  have d: "int 5 dvd 1440" by simp
  have e: "buscar_dados two_day_dir (Tick 5) 739043 739044 =
       Inr [example_bar (739043 * 1440 + 600), example_bar (739044 * 1440 + 600)]"
    by (simp add: query_defs two_day_dir_def calendar_defs example_bar_def upt_0_numeral
          upt_1_numeral)
  from C4_bucket_alignment [of two_day_dir 0 0 0 0 Malformed 5 739043 739044
      "[example_bar (739043 * 1440 + 600), example_bar (739044 * 1440 + 600)]"] d e
  have "Datetime (example_bar (739044 * 1440 + 600)) mod int 5 = 0" by simp
  with e show ?thesis by simp
qed

section \<open>The cache after a sync\<close>

text \<open>
  What the loop leaves behind: the files outside the written days are untouched, a run
  that completes has stored the provider's rows for every written day, and a run over a
  cache that already holds them changes nothing.
\<close>

lemma writes_past: "\<not> cur < fin \<Longrightarrow> writes yf cur fin = {}"
  by (auto simp: writes_def)

lemma writes_skip:
  assumes "cur < fin" and "\<not> (weekday cur < 5 \<and> yf cur \<noteq> [])"
  shows "writes yf cur fin = writes yf (cur + 1) fin"
proof -
  have "(cur \<le> d \<and> weekday d < 5 \<and> yf d \<noteq> []) = (cur + 1 \<le> d \<and> weekday d < 5 \<and> yf d \<noteq> [])"
    for d
  proof (cases "d = cur")
    case True
    with assms(2) show ?thesis by simp
  next
    case False
    then have "cur \<le> d \<longleftrightarrow> cur + 1 \<le> d" by arith
    then show ?thesis by simp
  qed
  then show ?thesis unfolding writes_def by blast
qed

lemma writes_step:
  "cur < fin \<Longrightarrow> weekday cur < 5 \<Longrightarrow> yf cur \<noteq> [] \<Longrightarrow>
     writes yf cur fin = insert cur (writes yf (cur + 1) fin)"
  unfolding writes_def by auto

lemma to_sql_replace_update:
  "to_sql_replace p rows dir = Inr dir' \<Longrightarrow> dir' = AList.update p (Table rows) dir"
  by (auto simp: to_sql_replace_def split: option.splits db_file.splits)

lemma to_sql_replace_Inr:
  assumes "to_sql_replace p rows dir = Inr dir'"
  shows "map_of dir' = (map_of dir)(p \<mapsto> Table rows)"
    and "fst ` set dir' = insert p (fst ` set dir)"
  unfolding to_sql_replace_update [OF assms] by (simp_all add: update_conv' dom_update)

lemma sync_loop_frame:
  "name \<notin> get_db_path_for_date ` writes yf cur fin \<Longrightarrow>
     map_of (files (sync_loop yf dir cur fin)) name = map_of dir name"
proof (induction dir cur rule: sync_loop_cases [where fin = fin and yf = yf])
  case (stop dir cur)
  then show ?case by (simp add: sync_loop_done)
next
  case (weekend dir cur)
  then show ?case by (simp add: sync_loop_weekend writes_skip)
next
  case (empty dir cur)
  then show ?case by (simp add: sync_loop_empty writes_skip)
next
  case (failed dir cur e)
  then show ?case by (simp add: sync_loop_fail)
next
  case (stored dir cur dir')
  from stored.prems stored.hyps have "name \<noteq> get_db_path_for_date cur"
    and "name \<notin> get_db_path_for_date ` writes yf (cur + 1) fin"
    by (auto simp: writes_step)
  with stored.IH to_sql_replace_Inr [OF stored.hyps(4)] stored.hyps show ?case
    by (simp add: sync_loop_write)
qed

lemma sync_loop_keys:
  "failure (sync_loop yf dir cur fin) = None \<Longrightarrow>
     fst ` set (files (sync_loop yf dir cur fin)) =
       fst ` set dir \<union> get_db_path_for_date ` writes yf cur fin"
proof (induction dir cur rule: sync_loop_cases [where fin = fin and yf = yf])
  case (stop dir cur)
  then show ?case by (simp add: sync_loop_done writes_past)
next
  case (weekend dir cur)
  then show ?case by (simp add: sync_loop_weekend writes_skip)
next
  case (empty dir cur)
  then show ?case by (simp add: sync_loop_empty writes_skip)
next
  case (failed dir cur e)
  then show ?case by (simp add: sync_loop_fail)
next
  case (stored dir cur dir')
  with to_sql_replace_Inr [OF stored.hyps(4)] show ?case
    by (simp add: sync_loop_write writes_step)
qed


lemma writes_range: "d \<in> writes yf cur fin \<Longrightarrow> cur \<le> d \<and> d < fin"
  by (simp add: writes_def)

lemma sync_loop_stored:
  "1 \<le> cur \<Longrightarrow> fin \<le> 3652060 \<Longrightarrow> failure (sync_loop yf dir cur fin) = None \<Longrightarrow>
   d \<in> writes yf cur fin \<Longrightarrow>
     map_of (files (sync_loop yf dir cur fin)) (get_db_path_for_date d) = Some (Table (yf d))"
proof (induction dir cur rule: sync_loop_cases [where fin = fin and yf = yf])
  case (stop dir cur)
  then show ?case by (simp add: writes_past)
next
  case (weekend dir cur)
  then show ?case by (simp add: sync_loop_weekend writes_skip)
next
  case (empty dir cur)
  then show ?case by (simp add: sync_loop_empty writes_skip)
next
  case (failed dir cur e)
  then show ?case by (simp add: sync_loop_fail)
next
  case (stored dir cur dir')
  from stored.prems(3) stored.hyps
  have f: "failure (sync_loop yf dir' (cur + 1) fin) = None"
    by (simp add: sync_loop_write)
  have fl: "files (sync_loop yf dir cur fin) = files (sync_loop yf dir' (cur + 1) fin)"
    using stored.hyps by (simp add: sync_loop_write)
  show ?case
  proof (cases "d = cur")
    case True
    have "get_db_path_for_date cur \<notin> get_db_path_for_date ` writes yf (cur + 1) fin"
    proof
      assume "get_db_path_for_date cur \<in> get_db_path_for_date ` writes yf (cur + 1) fin"
      then obtain x where x: "x \<in> writes yf (cur + 1) fin"
        and p: "get_db_path_for_date cur = get_db_path_for_date x" by blast
      from writes_range [OF x] stored.prems(1,2) stored.hyps(1)
      have "1 \<le> cur" "cur \<le> 3652059" "1 \<le> x" "x \<le> 3652059" "cur \<noteq> x" by linarith+
      with path_inj [OF _ _ _ _ p] show False by blast
    qed
    from sync_loop_frame [OF this, of dir'] to_sql_replace_Inr(1) [OF stored.hyps(4)] True fl
    show ?thesis by simp
  next
    case False
    with stored.prems(4) stored.hyps have "d \<in> writes yf (cur + 1) fin"
      by (simp add: writes_step)
    with stored.IH stored.prems(1,2) f fl show ?thesis by simp
  qed
qed

lemma sync_loop_noop:
  "(\<forall>d \<in> writes yf cur fin. map_of dir (get_db_path_for_date d) = Some (Table (yf d))) \<Longrightarrow>
     files (sync_loop yf dir cur fin) = dir \<and> failure (sync_loop yf dir cur fin) = None"
proof (induction dir cur rule: sync_loop_cases [where fin = fin and yf = yf])
  case (stop dir cur)
  then show ?case by (simp add: sync_loop_done)
next
  case (weekend dir cur)
  then show ?case by (simp add: sync_loop_weekend writes_skip)
next
  case (empty dir cur)
  then show ?case by (simp add: sync_loop_empty writes_skip)
next
  case (failed dir cur e)
  then have "map_of dir (get_db_path_for_date cur) = Some (Table (yf cur))"
    by (simp add: writes_step)
  with failed.hyps(4) show ?case by (simp add: to_sql_replace_def)
next
  case (stored dir cur dir')
  then have m: "map_of dir (get_db_path_for_date cur) = Some (Table (yf cur))"
    by (simp add: writes_step)
  from to_sql_replace_update [OF stored.hyps(4)] update_triv [OF m] have "dir' = dir" by simp
  with stored show ?case by (simp add: sync_loop_write writes_step)
qed

lemma parse_all_None: "parse_all xs = None \<longleftrightarrow> (\<exists>x \<in> set xs. strptime x = None)"
  by (induction xs) (auto split: option.splits)

lemma parse_all_Some: "parse_all xs = Some ys \<Longrightarrow> map Some ys = map strptime xs"
  by (induction xs arbitrary: ys) (auto split: option.splits)

lemma cursor_None:
  "get_ultima_data_db dir = None \<longleftrightarrow>
     glob_sqlite3 dir = [] \<or> (\<exists>n \<in> set (glob_sqlite3 dir). date_of_name n = None)"
proof (cases "glob_sqlite3 dir = []")
  case True
  then show ?thesis by (simp add: get_ultima_data_db_def)
next
  case False
  show ?thesis
  proof (cases "parse_all (map replace_sqlite3 (glob_sqlite3 dir))")
    case None
    then have "\<exists>n \<in> set (glob_sqlite3 dir). date_of_name n = None"
      by (auto simp: parse_all_None date_of_name_def)
    with None False show ?thesis by (simp add: get_ultima_data_db_def Let_def)
  next
    case (Some ys)
    from parse_all_Some [OF Some] False have "ys \<noteq> []" by (cases ys) auto
    moreover from Some have "\<not> (\<exists>n \<in> set (glob_sqlite3 dir). date_of_name n = None)"
      using parse_all_None [of "map replace_sqlite3 (glob_sqlite3 dir)"]
      by (auto simp: date_of_name_def)
    ultimately show ?thesis
      using False Some by (cases ys) (simp_all add: get_ultima_data_db_def Let_def)
  qed
qed

lemma cursor_Some:
  assumes "get_ultima_data_db dir = Some c"
  shows "Some c \<in> date_of_name ` set (glob_sqlite3 dir)"
    and "\<forall>n \<in> set (glob_sqlite3 dir). \<exists>d. date_of_name n = Some d \<and> d \<le> c"
proof -
  from assms obtain ys where ys: "parse_all (map replace_sqlite3 (glob_sqlite3 dir)) = Some ys"
    and ne: "ys \<noteq> []" and c: "c = fold max (tl ys) (hd ys)"
    by (auto simp: get_ultima_data_db_def Let_def split: if_splits option.splits list.splits)
  from ne c have cm: "c = Max (set ys)"
    by (cases ys) (simp_all only: Max.set_eq_fold list.sel, simp)
  from parse_all_Some [OF ys]
  have m: "map Some ys = map date_of_name (glob_sqlite3 dir)"
    by (simp add: date_of_name_def comp_def)
  then have s: "Some ` set ys = date_of_name ` set (glob_sqlite3 dir)"
    by (metis list.set_map)
  from ne cm have "c \<in> set ys" by (simp add: Max_in)
  with s show "Some c \<in> date_of_name ` set (glob_sqlite3 dir)" by blast
  show "\<forall>n \<in> set (glob_sqlite3 dir). \<exists>d. date_of_name n = Some d \<and> d \<le> c"
  proof
    fix n assume "n \<in> set (glob_sqlite3 dir)"
    with s obtain d where d: "d \<in> set ys" "date_of_name n = Some d" by (metis imageE imageI)
    with cm show "\<exists>d. date_of_name n = Some d \<and> d \<le> c" by simp
  qed
qed

lemma glob_set:
  "set (glob_sqlite3 dir) = {n \<in> fst ` set dir. endswith n ''.sqlite3'' \<and> take 1 n \<noteq> ''.''}"
  by (auto simp: glob_sqlite3_def)

lemma sync_eq_loop:
  "sincronizar_dados_historicos yf today dir = sync_loop yf dir (data_inicial dir today) today"
  by (simp add: sincronizar_dados_historicos_def Let_def sync_loop_done)

lemma path_date:
  assumes "1 \<le> d" "d \<le> 3652059"
  shows "date_of_name (get_db_path_for_date d) = Some d"
    and "endswith (get_db_path_for_date d) ''.sqlite3'' \<and> take 1 (get_db_path_for_date d) \<noteq> ''.''"
proof -
  show "date_of_name (get_db_path_for_date d) = Some d"
    unfolding date_of_name_def by (rule date_of_path [OF assms])
  show "endswith (get_db_path_for_date d) ''.sqlite3'' \<and> take 1 (get_db_path_for_date d) \<noteq> ''.''"
    by (intro conjI path_roundtrip(2,3) assms)
qed

lemma cursor_pos: "get_ultima_data_db dir = Some c \<Longrightarrow> 1 \<le> c"
  using cursor_Some(1) [of dir c] strptime_pos [of _ c] by (auto simp: date_of_name_def)

lemma data_inicial_pos: "7 \<le> today \<Longrightarrow> 1 \<le> data_inicial dir today"
  using cursor_pos [of dir] by (auto simp: data_inicial_def split: option.splits)

lemma writes_mono: "s0 \<le> s1 \<Longrightarrow> writes yf s1 fin \<subseteq> writes yf s0 fin"
  by (auto simp: writes_def)

lemma glob_after_sync:
  assumes f: "failure (sync_loop yf dir cur fin) = None" and r: "1 \<le> cur" "fin \<le> 3652060"
  shows "set (glob_sqlite3 (files (sync_loop yf dir cur fin))) =
           set (glob_sqlite3 dir) \<union> get_db_path_for_date ` writes yf cur fin"
proof -
  have "endswith (get_db_path_for_date d) ''.sqlite3'' \<and> take 1 (get_db_path_for_date d) \<noteq> ''.''"
    if "d \<in> writes yf cur fin" for d
    using writes_range [OF that] r by (intro path_date(2)) linarith+
  then show ?thesis
    unfolding glob_set sync_loop_keys [OF f] by blast
qed

lemma data_inicial_mono:
  assumes f: "failure (sync_loop yf dir (data_inicial dir today) today) = None"
    and t: "7 \<le> today" "today \<le> 3652059"
  shows "data_inicial dir today \<le> data_inicial (files (sync_loop yf dir (data_inicial dir today) today)) today"
proof -
  let ?s0 = "data_inicial dir today"
  let ?S1 = "files (sync_loop yf dir ?s0 today)"
  from data_inicial_pos [OF t(1)] have s0: "1 \<le> ?s0" .
  from t(2) have t2: "today \<le> 3652060" by simp
  note G = glob_after_sync [OF f s0 t2]
  have P: "date_of_name (get_db_path_for_date d) = Some d" if "d \<in> writes yf ?s0 today" for d
    using writes_range [OF that] s0 t(2) by (intro path_date(1)) linarith+
  show ?thesis
  proof (cases "get_ultima_data_db ?S1")
    case None
    show ?thesis
    proof (cases "get_ultima_data_db dir")
      case dn: None
      with None show ?thesis by (simp add: data_inicial_def)
    next
      case (Some c0)
      from cursor_Some [OF Some] have ne: "glob_sqlite3 dir \<noteq> []"
        and ap: "\<forall>n \<in> set (glob_sqlite3 dir). date_of_name n \<noteq> None" by auto
      from ne G have "glob_sqlite3 ?S1 \<noteq> []" by auto
      moreover have "\<forall>n \<in> set (glob_sqlite3 ?S1). date_of_name n \<noteq> None"
        unfolding G using ap P by auto
      ultimately have "get_ultima_data_db ?S1 \<noteq> None" by (simp add: cursor_None)
      with None show ?thesis by simp
    qed
  next
    case (Some c1)
    note C1 = cursor_Some [OF Some]
    show ?thesis
    proof (cases "get_ultima_data_db dir")
      case (Some c0)
      from cursor_Some(1) [OF Some] obtain n where n: "n \<in> set (glob_sqlite3 dir)"
        "date_of_name n = Some c0" by auto
      with G have "n \<in> set (glob_sqlite3 ?S1)" by simp
      with C1(2) n(2) have "c0 \<le> c1" by auto
      with Some \<open>get_ultima_data_db ?S1 = Some c1\<close> show ?thesis by (simp add: data_inicial_def)
    next
      case None
      have "\<forall>n \<in> set (glob_sqlite3 dir). date_of_name n \<noteq> None"
        using C1(2) G by auto
      with None have "glob_sqlite3 dir = []" by (auto simp: cursor_None)
      with G C1(1) obtain d where d: "d \<in> writes yf ?s0 today"
        "date_of_name (get_db_path_for_date d) = Some c1" by auto
      with P [OF d(1)] have "c1 = d" by simp
      with writes_range [OF d(1)] have "?s0 \<le> c1 + 1" by simp
      with \<open>get_ultima_data_db ?S1 = Some c1\<close> show ?thesis by (simp add: data_inicial_def)
    qed
  qed
qed

lemma sync_idempotent:
  assumes f: "failure (sincronizar_dados_historicos yf today dir) = None"
    and t: "7 \<le> today" "today \<le> 3652059"
  shows "files (sincronizar_dados_historicos yf today (files (sincronizar_dados_historicos yf today dir)))
           = files (sincronizar_dados_historicos yf today dir)"
    and "failure (sincronizar_dados_historicos yf today (files (sincronizar_dados_historicos yf today dir)))
           = None"
proof -
  let ?s0 = "data_inicial dir today"
  let ?S1 = "files (sync_loop yf dir ?s0 today)"
  from f have f': "failure (sync_loop yf dir ?s0 today) = None" by (simp add: sync_eq_loop)
  from data_inicial_pos [OF t(1)] have s0: "1 \<le> ?s0" .
  from t(2) have t2: "today \<le> 3652060" by simp
  have "\<forall>d \<in> writes yf (data_inicial ?S1 today) today.
      map_of ?S1 (get_db_path_for_date d) = Some (Table (yf d))"
    using writes_mono [OF data_inicial_mono [OF f' t]] sync_loop_stored [OF s0 t2 f'] by blast
  from sync_loop_noop [OF this]
  show "files (sincronizar_dados_historicos yf today (files (sincronizar_dados_historicos yf today dir)))
           = files (sincronizar_dados_historicos yf today dir)"
    and "failure (sincronizar_dados_historicos yf today (files (sincronizar_dados_historicos yf today dir)))
           = None"
    by (simp_all add: sync_eq_loop)
qed

lemma to_sql_replace_cong:
  "map_of dir2 p = map_of dir p \<Longrightarrow>
     (case to_sql_replace p rows dir2 of Inl e \<Rightarrow> to_sql_replace p rows dir = Inl e
      | Inr d2 \<Rightarrow> \<exists>d. to_sql_replace p rows dir = Inr d)"
  by (auto simp: to_sql_replace_def split: option.splits db_file.splits sum.splits)

lemma sync_loop_again:
  "1 \<le> cur \<Longrightarrow> fin \<le> 3652060 \<Longrightarrow>
   map_of dir2 = map_of (files (sync_loop yf dir cur fin)) \<Longrightarrow>
     files (sync_loop yf dir2 cur fin) = dir2
     \<and> failure (sync_loop yf dir2 cur fin) = failure (sync_loop yf dir cur fin)"
proof (induction dir cur rule: sync_loop_cases [where fin = fin and yf = yf])
  case (stop dir cur)
  then show ?case by (simp add: sync_loop_done)
next
  case (weekend dir cur)
  then show ?case by (simp add: sync_loop_weekend)
next
  case (empty dir cur)
  then show ?case by (simp add: sync_loop_empty)
next
  case (failed dir cur e)
  from failed.hyps(4) have "map_of dir (get_db_path_for_date cur) = Some Corrupt"
    by (auto simp: to_sql_replace_def split: option.splits db_file.splits)
  with failed.prems(3) failed.hyps
  have "map_of dir2 (get_db_path_for_date cur) = Some Corrupt"
    by (simp add: sync_loop_fail)
  then have "to_sql_replace (get_db_path_for_date cur) (yf cur) dir2 = Inl DatabaseError"
    by (simp add: to_sql_replace_def)
  moreover from failed.hyps(4) have "e = DatabaseError"
    by (auto simp: to_sql_replace_def split: option.splits db_file.splits)
  ultimately show ?case using failed.hyps by (simp add: sync_loop_fail)
next
  case (stored dir cur dir')
  have fl: "files (sync_loop yf dir cur fin) = files (sync_loop yf dir' (cur + 1) fin)"
    and fa: "failure (sync_loop yf dir cur fin) = failure (sync_loop yf dir' (cur + 1) fin)"
    using stored.hyps by (simp_all add: sync_loop_write)
  have "get_db_path_for_date cur \<notin> get_db_path_for_date ` writes yf (cur + 1) fin"
  proof
    assume "get_db_path_for_date cur \<in> get_db_path_for_date ` writes yf (cur + 1) fin"
    then obtain x where x: "x \<in> writes yf (cur + 1) fin"
      and p: "get_db_path_for_date cur = get_db_path_for_date x" by blast
    from writes_range [OF x] stored.prems(1,2) stored.hyps(1)
    have "1 \<le> cur" "cur \<le> 3652059" "1 \<le> x" "x \<le> 3652059" "cur \<noteq> x" by linarith+
    with path_inj [OF _ _ _ _ p] show False by blast
  qed
  from sync_loop_frame [OF this, of dir'] to_sql_replace_Inr(1) [OF stored.hyps(4)]
  have "map_of (files (sync_loop yf dir' (cur + 1) fin)) (get_db_path_for_date cur)
      = Some (Table (yf cur))" by simp
  with stored.prems(3) fl have m: "map_of dir2 (get_db_path_for_date cur) = Some (Table (yf cur))"
    by simp
  then have w: "to_sql_replace (get_db_path_for_date cur) (yf cur) dir2 = Inr dir2"
    by (simp add: to_sql_replace_def update_triv)
  from stored.prems fl have "map_of dir2 = map_of (files (sync_loop yf dir' (cur + 1) fin))"
    and "1 \<le> cur + 1" by simp_all
  from stored.IH [OF this(2) stored.prems(2) this(1)] w stored.hyps fa
  show ?case by (simp add: sync_loop_write [of cur fin yf dir2 dir2])
qed

lemma sync_loop_keys_mono: "fst ` set dir \<subseteq> fst ` set (files (sync_loop yf dir cur fin))"
proof (induction dir cur rule: sync_loop_cases [where fin = fin and yf = yf])
  case (stop dir cur)
  then show ?case by (simp add: sync_loop_done)
next
  case (weekend dir cur)
  then show ?case by (simp add: sync_loop_weekend)
next
  case (empty dir cur)
  then show ?case by (simp add: sync_loop_empty)
next
  case (failed dir cur e)
  then show ?case by (simp add: sync_loop_fail)
next
  case (stored dir cur dir')
  with to_sql_replace_Inr(2) [OF stored.hyps(4)] show ?case
    by (auto simp: sync_loop_write)
qed

lemma sync_loop_failure_corrupt:
  "failure (sync_loop yf dir cur fin) \<noteq> None \<Longrightarrow>
     \<exists>d. cur \<le> d \<and> d < fin \<and> map_of dir (get_db_path_for_date d) = Some Corrupt"
proof (induction dir cur rule: sync_loop_cases [where fin = fin and yf = yf])
  case (stop dir cur)
  then show ?case by (simp add: sync_loop_done)
next
  case (weekend dir cur)
  then have "\<exists>d. cur + 1 \<le> d \<and> d < fin \<and> map_of dir (get_db_path_for_date d) = Some Corrupt"
    by (simp add: sync_loop_weekend)
  then show ?case by (meson add1_zle_eq order_less_imp_le)
next
  case (empty dir cur)
  then have "\<exists>d. cur + 1 \<le> d \<and> d < fin \<and> map_of dir (get_db_path_for_date d) = Some Corrupt"
    by (simp add: sync_loop_empty)
  then show ?case by (meson add1_zle_eq order_less_imp_le)
next
  case (failed dir cur e)
  from failed.hyps(4) have "map_of dir (get_db_path_for_date cur) = Some Corrupt"
    by (auto simp: to_sql_replace_def split: option.splits db_file.splits)
  with failed.hyps(1) show ?case by auto
next
  case (stored dir cur dir')
  then obtain d where d: "cur + 1 \<le> d" "d < fin"
    "map_of dir' (get_db_path_for_date d) = Some Corrupt"
    by (auto simp: sync_loop_write)
  with to_sql_replace_Inr(1) [OF stored.hyps(4)]
  have "map_of dir (get_db_path_for_date d) = Some Corrupt"
    by (auto split: if_splits)
  with d show ?case by (meson add1_zle_eq order_less_imp_le)
qed

lemma failure_same_start:
  assumes f: "failure (sync_loop yf dir (data_inicial dir today) today) \<noteq> None"
    and t: "7 \<le> today" "today \<le> 3652059"
  shows "data_inicial (files (sync_loop yf dir (data_inicial dir today) today)) today
           = data_inicial dir today"
proof -
  let ?s0 = "data_inicial dir today"
  let ?S1 = "files (sync_loop yf dir ?s0 today)"
  from sync_loop_failure_corrupt [OF f] obtain d where d: "?s0 \<le> d" "d < today"
    "map_of dir (get_db_path_for_date d) = Some Corrupt" by blast
  from data_inicial_pos [OF t(1), of dir] d(1,2) t(2) have r: "1 \<le> d" "d \<le> 3652059"
    by linarith+
  from d(3) have "get_db_path_for_date d \<in> fst ` set dir"
    by (metis domI dom_map_of_conv_image_fst)
  with path_date(2) [OF r] have g: "get_db_path_for_date d \<in> set (glob_sqlite3 dir)"
    by (simp add: glob_set)
  have cn: "get_ultima_data_db dir = None"
  proof (cases "get_ultima_data_db dir")
    case (Some c0)
    from cursor_Some(2) [OF Some] g path_date(1) [OF r] have "d \<le> c0" by auto
    with d(1) Some show ?thesis by (simp add: data_inicial_def)
  qed simp
  with g obtain n where n: "n \<in> set (glob_sqlite3 dir)" "date_of_name n = None"
    by (auto simp: cursor_None)
  with sync_loop_keys_mono [of dir yf ?s0 today] have "n \<in> set (glob_sqlite3 ?S1)"
    by (auto simp: glob_set)
  with n(2) have "get_ultima_data_db ?S1 = None" by (auto simp: cursor_None)
  with cn show ?thesis by (simp add: data_inicial_def)
qed

lemma sync_idempotent_general:
  assumes t: "7 \<le> today" "today \<le> 3652059"
  shows "files (sincronizar_dados_historicos yf today (files (sincronizar_dados_historicos yf today dir)))
           = files (sincronizar_dados_historicos yf today dir)
         \<and> failure (sincronizar_dados_historicos yf today (files (sincronizar_dados_historicos yf today dir)))
           = failure (sincronizar_dados_historicos yf today dir)"
proof (cases "failure (sincronizar_dados_historicos yf today dir) = None")
  case True
  with sync_idempotent [OF True t] show ?thesis by simp
next
  case False
  then have f: "failure (sync_loop yf dir (data_inicial dir today) today) \<noteq> None"
    by (simp add: sync_eq_loop)
  from t(2) have t2: "today \<le> 3652060" by simp
  from sync_loop_again [OF data_inicial_pos [OF t(1), of dir] t2 refl, of yf]
  show ?thesis
    by (simp add: sync_eq_loop failure_same_start [OF f t])
qed

lemma sync_frame:
  "map_of (files (sincronizar_dados_historicos yf today dir)) name \<noteq> map_of dir name \<Longrightarrow>
     \<exists>d. data_inicial dir today \<le> d \<and> d < today \<and> name = get_db_path_for_date d"
  using sync_loop_frame [of name yf "data_inicial dir today" today dir]
  by (auto simp: sync_eq_loop dest: writes_range)



section \<open>Today exclusion\<close>

text \<open>
  Claim C6. A sync run on day \<open>D\<close> calls the provider only for dates strictly before
  \<open>D\<close>, and every file it creates or changes is the Day Store file of a date strictly
  before \<open>D\<close>; for every starting cache, the Day Store file of \<open>D\<close> itself is after the
  sync what it was before (absent if it was absent). The last part is stated for the
  dates of Python, where \<open>D\<close> minus six days is a date.
\<close>

theorem C6_today_excluded:
  "(\<forall>d \<in> set (fetched (sincronizar_dados_historicos yf D dir)). d < D)
   \<and> (\<forall>name. map_of (files (sincronizar_dados_historicos yf D dir)) name \<noteq> map_of dir name
         \<longrightarrow> (\<exists>d. d < D \<and> name = get_db_path_for_date d))
   \<and> (7 \<le> D \<longrightarrow> D \<le> 3652059 \<longrightarrow>
         map_of (files (sincronizar_dados_historicos yf D dir)) (get_db_path_for_date D)
           = map_of dir (get_db_path_for_date D))"
proof (intro conjI ballI allI impI)
  fix d assume "d \<in> set (fetched (sincronizar_dados_historicos yf D dir))"
  from sync_fetched [OF this] show "d < D" by simp
next
  fix name
  assume "map_of (files (sincronizar_dados_historicos yf D dir)) name \<noteq> map_of dir name"
  from sync_frame [OF this] show "\<exists>d. d < D \<and> name = get_db_path_for_date d" by blast
next
  assume D: "7 \<le> D" "D \<le> 3652059"
  show "map_of (files (sincronizar_dados_historicos yf D dir)) (get_db_path_for_date D)
           = map_of dir (get_db_path_for_date D)"
  proof (rule ccontr)
    assume "\<not> ?thesis"
    from sync_frame [OF this] obtain d where d: "data_inicial dir D \<le> d" "d < D"
      "get_db_path_for_date D = get_db_path_for_date d" by blast
    from data_inicial_pos [OF D(1), of dir] d(1,2) D
    have "1 \<le> D" "D \<le> 3652059" "1 \<le> d" "d \<le> 3652059" by linarith+
    from path_inj [OF this d(3)] d(2) show False by simp
  qed
qed

text \<open>The sync of Friday 2024-06-07 from an empty cache creates no store for that day.\<close>

theorem C6_today_excluded_witness:
  "fetched (sincronizar_dados_historicos example_yf 739044 []) = [739040, 739041, 739042, 739043]
   \<and> 739043 < (739044::int)
   \<and> map_of (files (sincronizar_dados_historicos example_yf 739044 [])) (get_db_path_for_date 739044)
       = None"
proof -
  have f: "fetched (sincronizar_dados_historicos example_yf 739044 []) =
      [739040, 739041, 739042, 739043]"
    by (simp add: sync_defs calendar_defs example_yf_def)
  note t = C6_today_excluded [of example_yf 739044 "[]"]
  from t f have "739043 < (739044::int)" by simp
  moreover from t
  have "map_of (files (sincronizar_dados_historicos example_yf 739044 [])) (get_db_path_for_date 739044)
       = None" by simp
  ultimately show ?thesis using f by simp
qed

section \<open>File names that are not dates\<close>



section \<open>Retry of empty days\<close>




section \<open>Idempotent sync\<close>

text \<open>
  Claim C5. For every cache and every provider, a second sync with the same value of
  today and the same provider answers leaves the cache directory exactly as the first
  sync left it: the same files with the same contents. The two calls also end the same
  way. Today is a date of Python from which six days can be subtracted.
\<close>

theorem C5_idempotent_sync:
  "7 \<le> today \<Longrightarrow> today \<le> 3652059 \<Longrightarrow>
     files (sincronizar_dados_historicos yf today
              (files (sincronizar_dados_historicos yf today dir)))
       = files (sincronizar_dados_historicos yf today dir)
     \<and> failure (sincronizar_dados_historicos yf today
                  (files (sincronizar_dados_historicos yf today dir)))
       = failure (sincronizar_dados_historicos yf today dir)"
  by (rule sync_idempotent_general)

text \<open>The sync of 2024-06-07 over the cache with \<^verbatim>\<open>notes.sqlite3\<close>, run twice.\<close>

theorem C5_idempotent_sync_witness:
  "(7::int) \<le> 739044 \<and> (739044::int) \<le> 3652059
   \<and> map fst (files (sincronizar_dados_historicos example_yf 739044 junk_dir))
       = [''notes.sqlite3'', ''2024-06-06.sqlite3'', ''2024-06-03.sqlite3'', ''2024-06-04.sqlite3'']
   \<and> files (sincronizar_dados_historicos example_yf 739044
              (files (sincronizar_dados_historicos example_yf 739044 junk_dir)))
       = files (sincronizar_dados_historicos example_yf 739044 junk_dir)"
proof -
  have a: "(7::int) \<le> 739044" and b: "(739044::int) \<le> 3652059" by simp_all
  have n: "map fst (files (sincronizar_dados_historicos example_yf 739044 junk_dir))
       = [''notes.sqlite3'', ''2024-06-06.sqlite3'', ''2024-06-03.sqlite3'', ''2024-06-04.sqlite3'']"
    by (simp add: sync_defs calendar_defs example_yf_def junk_dir_def)
  from C5_idempotent_sync [OF a b, of example_yf junk_dir] n show ?thesis by simp
qed

end
